(* ===== verification/Prelude.thy ===== *)
theory Prelude
  imports Main "HOL-Library.Word"
begin

text \<open>
  Shared vocabulary of the development: the machine types of the C++ sources
  (\<open>int\<close> is a 32-bit two's complement word, \<open>size_t\<close> a 64-bit unsigned word),
  the outcomes a C++ operation can have besides returning (a thrown
  \<open>std::runtime_error\<close> and the kinds of undefined behaviour the sources could
  reach), the binds \<open>ebind\<close> and \<open>rbind\<close> that sequence C++ statements (the second
  for statements that may also not return), the
  facts on words and options the component proofs share, and the decimal
  rendering \<open>operator<<(int)\<close> of \<open>std::ostream\<close> that both components print with.
\<close>

named_theorems mem_simps "rules evaluating the operations of the node store"
named_theorems inv_intros "rules establishing the linked-list representation invariant"

type_synonym int32 = "32 word"
type_synonym size_t = "64 word"
type_synonym addr = nat

text \<open>
  Outcomes other than a normal return. \<open>Runtime_error\<close> carries the message of
  the \<open>std::runtime_error\<close> the sources throw; the other constructors are the
  undefined behaviours of C++ that pointer and integer code can reach.
\<close>

datatype cpp_error =
    Runtime_error string
  | Null_deref
  | Use_after_free
  | Invalid_delete
  | Signed_overflow

type_synonym 'a res = "cpp_error + 'a"

text \<open>Sequencing of two C++ statements: an error of the first one propagates.\<close>

primrec ebind :: "'a res \<Rightarrow> ('a \<Rightarrow> 'b res) \<Rightarrow> 'b res" where
  "ebind (Inl e) f = Inl e"
| "ebind (Inr a) f = f a"

lemma ebind_eq_Inr [simp]:
  "(ebind m f = Inr b) = (\<exists>a. m = Inr a \<and> f a = Inr b)"
  by (cases m) auto

lemma ebind_Inr_right [simp]: "ebind m Inr = m"
  by (cases m) auto

text \<open>
  Sequencing of two statements when the first may also fail to return (a loop
  that does not end is \<open>None\<close>): both a fault and non-termination propagate.
\<close>

definition rbind :: "'a res option \<Rightarrow> ('a \<Rightarrow> 'b res option) \<Rightarrow> 'b res option" where
  "rbind m f = (case m of None \<Rightarrow> None | Some (Inl e) \<Rightarrow> Some (Inl e) | Some (Inr a) \<Rightarrow> f a)"

lemma rbind_simps [simp]:
  "rbind None f = None" "rbind (Some (Inl e)) f = Some (Inl e)" "rbind (Some (Inr a)) f = f a"
  by (simp_all add: rbind_def)

subsection \<open>Optional pointers\<close>

text \<open>The pointer to the last element of a chain of node addresses.\<close>

definition last_ptr :: "addr list \<Rightarrow> addr option" where
  "last_ptr as = (if as = [] then None else Some (last as))"

lemma last_ptr_simps [simp]:
  "last_ptr [] = None"
  "last_ptr (as @ [a]) = Some a"
  "last_ptr [a] = Some a"
  by (simp_all add: last_ptr_def)

lemma last_ptr_append [simp]:
  "last_ptr (as @ bs) = (if bs = [] then last_ptr as else last_ptr bs)"
  by (simp add: last_ptr_def)

lemma last_ptr_eq_None [simp]: "(last_ptr as = None) = (as = [])"
  by (simp add: last_ptr_def)

lemma last_ptr_in: "last_ptr as = Some a \<Longrightarrow> a \<in> set as"
  using last_in_set by (fastforce simp: last_ptr_def split: if_splits)

lemma last_ptr_Cons [simp]:
  "last_ptr (a # as) = (if as = [] then Some a else last_ptr as)"
  by (simp add: last_ptr_def)

subsection \<open>Counters of type \<open>size_t\<close>\<close>

text \<open>
  An increment that stays below \<open>2 ^ 64\<close> and a decrement of a non-zero counter
  are exact on the natural number the counter denotes.
\<close>

lemma unat_inc:
  fixes w :: "'a::len word"
  assumes "Suc (unat w) < 2 ^ LENGTH('a)"
  shows "unat (w + 1) = Suc (unat w)"
proof -
  have "unat (w + 1) = (unat w + unat (1::'a word)) mod 2 ^ LENGTH('a)"
    by (simp add: unat_word_ariths)
  with assms show ?thesis by simp
qed

lemma unat_dec:
  fixes w :: "'a::len word"
  assumes "0 < unat w"
  shows "unat (w - 1) = unat w - 1"
  using assms by (simp add: unat_minus_one unat_gt_0)

lemma word_le_unat: "((a::'a::len word) \<le> b) = (unat a \<le> unat b)"
  by (rule word_le_nat_alt)

lemma word_eq_0_unat: "((w::'a::len word) = 0) = (unat w = 0)"
  by (simp add: unat_eq_zero)

lemma unat_of_nat_small:
  "n < 2 ^ LENGTH('a) \<Longrightarrow> unat (word_of_nat n :: 'a::len word) = n"
  by (simp add: unat_of_nat take_bit_nat_eq_self)

subsection \<open>Decimal rendering of integers\<close>

text \<open>
  \<open>std::ostream::operator<<(int)\<close> writes the decimal digits of the value, with a
  leading minus sign for negative values and no leading zeros.
\<close>

definition digit_char :: "nat \<Rightarrow> char" where
  "digit_char d = ''0123456789'' ! d"

fun nat_dec :: "nat \<Rightarrow> string" where
  "nat_dec n = (if n < 10 then [digit_char n] else nat_dec (n div 10) @ [digit_char (n mod 10)])"

declare nat_dec.simps [simp del]

definition int_dec :: "int \<Rightarrow> string" where
  "int_dec i = (if i < 0 then CHR ''-'' # nat_dec (nat (- i)) else nat_dec (nat i))"

definition print_int32 :: "int32 \<Rightarrow> string" where
  "print_int32 v = int_dec (sint v)"

end
