(* ===== verification/Heap.thy ===== *)
theory Heap
  imports Prelude
begin

text \<open>
  The free store the linked list lives in. A \<open>Linked_List::Node\<close>
  (src/main.h, \<open>struct Node\<close>) is a record of its payload and its \<open>next\<close>
  pointer; the store is an arena of cells indexed by address, where \<open>new\<close>
  appends a fresh cell and \<open>delete\<close> frees one for good (addresses are never
  reused, so a dangling pointer is always detected). Reading a field through a
  null or freed pointer, and deleting a freed node, are errors of the model
  (undefined behaviour in C++). \<open>path h p as q\<close> says that following
  \<open>next\<close> from \<open>p\<close> visits the allocated nodes \<open>as\<close> and arrives at \<open>q\<close>;
  \<open>walk\<close> is its executable, count-bounded form.
\<close>

record node =
  data :: int32
  next_ptr :: "addr option"

type_synonym mem = "node option list"

definition cell :: "mem \<Rightarrow> addr \<Rightarrow> node option" where
  "cell m a = (if a < length m then m ! a else None)"

text \<open>\<open>new Node(val)\<close>: the constructor sets \<open>data(val), next(nullptr)\<close>.\<close>

definition new_node :: "int32 \<Rightarrow> mem \<Rightarrow> addr \<times> mem" where
  "new_node v m = (length m, m @ [Some \<lparr>data = v, next_ptr = None\<rparr>])"

text \<open>\<open>*p\<close>: reading the node a pointer points to.\<close>

definition deref :: "addr option \<Rightarrow> mem \<Rightarrow> node res" where
  "deref p m = (case p of
       None \<Rightarrow> Inl Null_deref
     | Some a \<Rightarrow> (case cell m a of None \<Rightarrow> Inl Use_after_free | Some n \<Rightarrow> Inr n))"

text \<open>\<open>p->next = q\<close>.\<close>

definition set_next :: "addr option \<Rightarrow> addr option \<Rightarrow> mem \<Rightarrow> mem res" where
  "set_next p q m = (case p of
       None \<Rightarrow> Inl Null_deref
     | Some a \<Rightarrow> (case cell m a of
           None \<Rightarrow> Inl Use_after_free
         | Some n \<Rightarrow> Inr (m[a := Some (n\<lparr>next_ptr := q\<rparr>)])))"

text \<open>\<open>delete p\<close>: a no-op on the null pointer, as in C++.\<close>

definition delete :: "addr option \<Rightarrow> mem \<Rightarrow> mem res" where
  "delete p m = (case p of
       None \<Rightarrow> Inr m
     | Some a \<Rightarrow> (case cell m a of None \<Rightarrow> Inl Invalid_delete | Some _ \<Rightarrow> Inr (m[a := None])))"

primrec path :: "(addr \<Rightarrow> node option) \<Rightarrow> addr option \<Rightarrow> addr list \<Rightarrow> addr option \<Rightarrow> bool" where
  "path h p [] q = (p = q)"
| "path h p (a # as) q =
     (p = Some a \<and> (case h a of None \<Rightarrow> False | Some n \<Rightarrow> path h (next_ptr n) as q))"

fun walk :: "(addr \<Rightarrow> node option) \<Rightarrow> addr option \<Rightarrow> nat \<Rightarrow> addr list option" where
  "walk h None 0 = Some []"
| "walk h (Some a) (Suc k) =
     (case h a of None \<Rightarrow> None | Some n \<Rightarrow> map_option (Cons a) (walk h (next_ptr n) k))"
| "walk h _ _ = None"

definition vals :: "(addr \<Rightarrow> node option) \<Rightarrow> addr list \<Rightarrow> int32 list" where
  "vals h as = map (\<lambda>a. data (the (h a))) as"

subsection \<open>The store\<close>

lemma cell_append [mem_simps]: "cell (m @ [x]) = (cell m)(length m := x)"
  by (auto simp: cell_def nth_append)

lemma cell_update [mem_simps]: "a < length m \<Longrightarrow> cell (m[a := x]) = (cell m)(a := x)"
  by (auto simp: cell_def)

lemma cell_Some_less: "cell m a = Some n \<Longrightarrow> a < length m"
  by (simp add: cell_def split: if_splits)

lemma cell_length [simp]: "cell m (length m) = None"
  by (simp add: cell_def)

lemma deref_Some [mem_simps]: "cell m a = Some n \<Longrightarrow> deref (Some a) m = Inr n"
  by (simp add: deref_def)

lemma set_next_Some [mem_simps]:
  "cell m a = Some n \<Longrightarrow> set_next (Some a) q m = Inr (m[a := Some (n\<lparr>next_ptr := q\<rparr>)])"
  by (simp add: set_next_def)

lemma delete_Some [mem_simps]: "cell m a = Some n \<Longrightarrow> delete (Some a) m = Inr (m[a := None])"
  by (simp add: delete_def)

subsection \<open>Paths\<close>

lemma path_Cons_iff [simp]:
  "path h p (a # as) q \<longleftrightarrow> p = Some a \<and> (\<exists>n. h a = Some n \<and> path h (next_ptr n) as q)"
  by (auto split: option.splits)

declare path.simps(2) [simp del]

lemma path_None_start [simp]: "path h None as q = (as = [] \<and> q = None)"
  by (cases as) auto

lemma path_append [simp]: "path h p (as @ bs) q = (\<exists>r. path h p as r \<and> path h r bs q)"
  by (induction as arbitrary: p) (auto split: option.splits)

lemma path_upd [simp]: "a \<notin> set as \<Longrightarrow> path (h(a := x)) p as q = path h p as q"
  by (induction as arbitrary: p) (auto split: option.splits)

lemma path_null_iff: "path h p as None \<Longrightarrow> (p = None) = (as = [])"
  by (cases as) auto

lemma path_snoc_node:
  "path h p (as @ [a]) q \<longleftrightarrow> path h p as (Some a) \<and> (\<exists>n. h a = Some n \<and> next_ptr n = q)"
  by (auto split: option.splits)

lemma path_None_unique: "path h p as None \<Longrightarrow> path h p bs None \<Longrightarrow> as = bs"
proof (induction as arbitrary: p bs)
  case Nil
  then show ?case by (cases bs) auto
next
  case (Cons a as)
  then show ?case by (cases bs) (auto split: option.splits)
qed

lemma path_None_hd_notin:
  assumes "h a = Some n" and "path h (next_ptr n) as None"
  shows "a \<notin> set as"
proof
  assume "a \<in> set as"
  then obtain xs ys where as: "as = xs @ a # ys" by (auto simp: in_set_conv_decomp)
  with assms(2) obtain r where "path h (next_ptr n) xs r" and r: "path h r (a # ys) None"
    by auto
  with assms(1) have "path h (next_ptr n) ys None"
    by (auto split: option.splits)
  from path_None_unique [OF assms(2) this] as have "length (xs @ a # ys) = length ys"
    by simp
  then show False by simp
qed

lemma path_None_distinct: "path h p as None \<Longrightarrow> distinct as"
  by (induction as arbitrary: p) (auto split: option.splits dest: path_None_hd_notin)

lemma walk_eq_Some: "walk h p k = Some as \<longleftrightarrow> path h p as None \<and> length as = k"
proof (induction h p k arbitrary: as rule: walk.induct)
  case (2 h a k)
  show ?case
    using "2.IH" by (cases as) (auto split: option.splits)
qed (auto intro: ccontr)

text \<open>Unfolding \<open>walk\<close> at a numeral count, for evaluating concrete lists.\<close>

lemma walk_Some_eval:
  "walk h (Some a) k =
     (if k = 0 then None
      else (case h a of None \<Rightarrow> None | Some n \<Rightarrow> map_option (Cons a) (walk h (next_ptr n) (k - 1))))"
  by (cases k) (auto split: option.splits)

lemma walk_None_eval: "walk h None k = (if k = 0 then Some [] else None)"
  by (cases k) auto

lemma cell_eval: "cell m a = (if a < length m then m ! a else None)"
  by (rule cell_def)

lemmas store_eval = walk_Some_eval walk_None_eval cell_eval

lemma length_vals [simp]: "length (vals h as) = length as"
  by (simp add: vals_def)

lemma vals_simps [simp]:
  "vals h [] = []"
  "vals h (a # as) = data (the (h a)) # vals h as"
  "vals h (as @ bs) = vals h as @ vals h bs"
  by (simp_all add: vals_def)

end
