(* ===== verification/LinkedList.thy ===== *)
theory LinkedList
  imports Heap
begin

text \<open>
  The class \<open>Linked_List\<close> of src/main.h and its end operations in
  src/main.cpp: the object's fields \<open>head\<close>, \<open>tail\<close> and \<open>num_items\<close>
  together with the store holding its nodes form \<open>ll_state\<close>; each method is
  a function from the state to its result, statement by statement, every
  dereference and \<open>delete\<close> going through the checked operations of
  \<open>Heap\<close>. The loop of \<open>pop_back\<close> and the destructor's loop chase pointers and
  are \<^theory_text>\<open>partial_function (option)\<close>: \<open>None\<close> is a loop that does not end.
  \<open>ll_repr s as\<close> is the representation invariant (the nodes \<open>as\<close> form a
  null-terminated chain from \<open>head\<close>, \<open>tail\<close> points to the last one,
  \<open>num_items\<close> counts them and they are exactly the allocated nodes), \<open>ll_inv\<close>
  its executable form and \<open>ll_list\<close> the abstraction to the sequence of payloads.
\<close>

record ll_state =
  mem :: mem
  head :: "addr option"
  tail :: "addr option"
  num_items :: size_t

text \<open>\<open>Linked_List::Linked_List()\<close>.\<close>

definition linked_list_init :: ll_state where
  "linked_list_init = \<lparr>mem = [], head = None, tail = None, num_items = 0\<rparr>"

definition push_front :: "int32 \<Rightarrow> ll_state \<Rightarrow> ll_state res" where
  "push_front v s =
     (let (a, m) = new_node v (mem s) in
      ebind (set_next (Some a) (head s) m) (\<lambda>m'.
        Inr (s\<lparr>mem := m', head := Some a,
               tail := (if tail s = None then Some a else tail s),
               num_items := num_items s + 1\<rparr>)))"

definition push_back :: "int32 \<Rightarrow> ll_state \<Rightarrow> ll_state res" where
  "push_back v s =
     (let (a, m) = new_node v (mem s) in
      ebind (if tail s \<noteq> None then set_next (tail s) (Some a) m else Inr m) (\<lambda>m'.
        Inr (s\<lparr>mem := m', head := (if tail s \<noteq> None then head s else Some a),
               tail := Some a, num_items := num_items s + 1\<rparr>)))"

definition pop_front :: "ll_state \<Rightarrow> ll_state res" where
  "pop_front s =
     (if head s = None then Inr s
      else ebind (deref (head s) (mem s)) (\<lambda>n.
           ebind (delete (head s) (mem s)) (\<lambda>m.
             let s' = s\<lparr>head := next_ptr n, mem := m, num_items := num_items s - 1\<rparr>
             in Inr (if next_ptr n = None then s'\<lparr>tail := None\<rparr> else s'))))"

text \<open>The loop \<open>while (current->next != tail) current = current->next;\<close> of \<open>pop_back\<close>.\<close>

partial_function (option) find_before_tail ::
  "addr option \<Rightarrow> addr option \<Rightarrow> mem \<Rightarrow> addr option res option" where
  "find_before_tail cur tail_p m =
     (case deref cur m of
        Inl e \<Rightarrow> Some (Inl e)
      | Inr n \<Rightarrow> if next_ptr n \<noteq> tail_p then find_before_tail (next_ptr n) tail_p m else Some (Inr cur))"

definition pop_back :: "ll_state \<Rightarrow> ll_state res option" where
  "pop_back s =
     (if head s = None then Some (Inr s)
      else if head s = tail s then
        Some (ebind (delete (head s) (mem s)) (\<lambda>m.
          Inr (s\<lparr>mem := m, head := None, tail := None, num_items := num_items s - 1\<rparr>)))
      else map_option (\<lambda>r. ebind r (\<lambda>cur.
             ebind (delete (tail s) (mem s)) (\<lambda>m.
             ebind (set_next cur None m) (\<lambda>m'.
               Inr (s\<lparr>mem := m', tail := cur, num_items := num_items s - 1\<rparr>)))))
           (find_before_tail (head s) (tail s) (mem s)))"

definition ll_front :: "ll_state \<Rightarrow> int32 res" where
  "ll_front s =
     (if head s = None then Inl (Runtime_error ''List is empty'')
      else ebind (deref (head s) (mem s)) (\<lambda>n. Inr (data n)))"

definition ll_back :: "ll_state \<Rightarrow> int32 res" where
  "ll_back s =
     (if tail s = None then Inl (Runtime_error ''List is empty'')
      else ebind (deref (tail s) (mem s)) (\<lambda>n. Inr (data n)))"

definition ll_empty :: "ll_state \<Rightarrow> bool" where
  "ll_empty s = (num_items s = 0)"

definition ll_size :: "ll_state \<Rightarrow> size_t" where
  "ll_size s = num_items s"

text \<open>The destructor's loop: read \<open>current->next\<close>, then \<open>delete\<close> the node.\<close>

partial_function (option) destroy_chain :: "addr option \<Rightarrow> mem \<Rightarrow> mem res option" where
  "destroy_chain cur m =
     (case cur of
        None \<Rightarrow> Some (Inr m)
      | Some _ \<Rightarrow> (case deref cur m of
           Inl e \<Rightarrow> Some (Inl e)
         | Inr n \<Rightarrow> (case delete cur m of
              Inl e \<Rightarrow> Some (Inl e)
            | Inr m' \<Rightarrow> destroy_chain (next_ptr n) m')))"

definition ll_destroy :: "ll_state \<Rightarrow> mem res option" where
  "ll_destroy s = destroy_chain (head s) (mem s)"

text \<open>A list holding 10 and 20, as \<open>push_back(10); push_back(20)\<close> builds it.\<close>

abbreviation list_10_20 :: ll_state where
  "list_10_20 \<equiv> \<lparr>mem = [Some \<lparr>data = 10, next_ptr = Some 1\<rparr>, Some \<lparr>data = 20, next_ptr = None\<rparr>],
                  head = Some 0, tail = Some 1, num_items = 2\<rparr>"

subsection \<open>Representation invariant and abstraction\<close>

definition allocated :: "mem \<Rightarrow> addr list" where
  "allocated m = filter (\<lambda>a. cell m a \<noteq> None) [0..<length m]"

definition ll_repr :: "ll_state \<Rightarrow> addr list \<Rightarrow> bool" where
  "ll_repr s as \<longleftrightarrow>
     path (cell (mem s)) (head s) as None \<and> tail s = last_ptr as \<and>
     unat (num_items s) = length as \<and> dom (cell (mem s)) = set as"

definition ll_inv :: "ll_state \<Rightarrow> bool" where
  "ll_inv s =
     (case walk (cell (mem s)) (head s) (unat (num_items s)) of
        None \<Rightarrow> False
      | Some as \<Rightarrow> tail s = last_ptr as \<and> set (allocated (mem s)) = set as)"

definition ll_list :: "ll_state \<Rightarrow> int32 list" where
  "ll_list s =
     (case walk (cell (mem s)) (head s) (unat (num_items s)) of
        None \<Rightarrow> []
      | Some as \<Rightarrow> vals (cell (mem s)) as)"

lemma set_allocated: "set (allocated m) = dom (cell m)"
  by (auto simp: allocated_def dest: cell_Some_less)

lemma ll_inv_iff_repr: "ll_inv s \<longleftrightarrow> (\<exists>as. ll_repr s as)"
proof
  assume "ll_inv s"
  then obtain as where "walk (cell (mem s)) (head s) (unat (num_items s)) = Some as"
    and "tail s = last_ptr as" and "set (allocated (mem s)) = set as"
    by (auto simp: ll_inv_def split: option.splits)
  then have "ll_repr s as" by (simp add: ll_repr_def walk_eq_Some set_allocated)
  then show "\<exists>as. ll_repr s as" ..
next
  assume "\<exists>as. ll_repr s as"
  then obtain as where r: "ll_repr s as" ..
  then have "walk (cell (mem s)) (head s) (unat (num_items s)) = Some as"
    by (simp add: ll_repr_def walk_eq_Some)
  with r show "ll_inv s" by (simp add: ll_inv_def ll_repr_def set_allocated)
qed

lemma ll_repr_list: "ll_repr s as \<Longrightarrow> ll_list s = vals (cell (mem s)) as"
proof -
  assume r: "ll_repr s as"
  then have "walk (cell (mem s)) (head s) (unat (num_items s)) = Some as"
    by (simp add: ll_repr_def walk_eq_Some)
  then show ?thesis by (simp add: ll_list_def)
qed

lemma ll_repr_distinct: "ll_repr s as \<Longrightarrow> distinct as"
  by (auto simp: ll_repr_def intro: path_None_distinct)

lemma ll_repr_fresh: "ll_repr s as \<Longrightarrow> length (mem s) \<notin> set as"
proof -
  have "length (mem s) \<notin> dom (cell (mem s))" by (simp add: domIff)
  then show "ll_repr s as \<Longrightarrow> length (mem s) \<notin> set as" by (simp add: ll_repr_def)
qed

lemma ll_repr_cell: "ll_repr s as \<Longrightarrow> a \<in> set as \<Longrightarrow> \<exists>n. cell (mem s) a = Some n"
  by (auto simp: ll_repr_def)

lemma ll_repr_less: "ll_repr s as \<Longrightarrow> a \<in> set as \<Longrightarrow> a < length (mem s)"
  by (auto dest: ll_repr_cell cell_Some_less)

lemma ll_repr_head: "ll_repr s as \<Longrightarrow> head s = (if as = [] then None else Some (hd as))"
  by (cases as) (auto simp: ll_repr_def)

lemma ll_repr_init: "ll_repr linked_list_init []"
  by (simp add: ll_repr_def linked_list_init_def cell_def fun_eq_iff)

subsection \<open>Effect of the end operations on the representation\<close>

lemma vals_upd_notin [simp]: "a \<notin> set as \<Longrightarrow> vals (h(a := x)) as = vals h as"
  by (simp add: vals_def)

lemma vals_set_next [simp]:
  "h a = Some n \<Longrightarrow> vals (h(a \<mapsto> n\<lparr>next_ptr := q\<rparr>)) as = vals h as"
  by (auto simp: vals_def)

lemma push_front_repr:
  assumes r: "ll_repr s as" and bound: "Suc (length as) < 2 ^ 64"
  shows "\<exists>s'. push_front v s = Inr s' \<and> ll_repr s' (length (mem s) # as) \<and>
           vals (cell (mem s')) (length (mem s) # as) = v # vals (cell (mem s)) as"
proof -
  let ?a = "length (mem s)" and ?nd = "\<lparr>data = v, next_ptr = None\<rparr>"
  let ?m = "(mem s @ [Some ?nd])[?a := Some (?nd\<lparr>next_ptr := head s\<rparr>)]"
  let ?s' = "s\<lparr>mem := ?m, head := Some ?a, tail := (if tail s = None then Some ?a else tail s),
               num_items := num_items s + 1\<rparr>"
  have fresh: "?a \<notin> set as" using r by (rule ll_repr_fresh)
  have cm: "cell ?m = (cell (mem s))(?a \<mapsto> ?nd\<lparr>next_ptr := head s\<rparr>)"
    by (simp add: mem_simps)
  have run: "push_front v s = Inr ?s'"
    by (simp add: push_front_def new_node_def mem_simps)
  have num: "unat (num_items s + 1) = Suc (length as)"
    using r bound by (simp add: ll_repr_def unat_inc)
  have "ll_repr ?s' (?a # as)"
    using r fresh num cm by (auto simp: ll_repr_def)
  moreover have "vals (cell ?m) (?a # as) = v # vals (cell (mem s)) as"
    using fresh cm by simp
  ultimately show ?thesis using run by auto
qed


lemma path_redirect:
  assumes "path h p xs (Some c)" and "c \<notin> set xs" and "h c = Some n"
  shows "path (h(c \<mapsto> n\<lparr>next_ptr := q\<rparr>)) p (xs @ [c]) q"
  using assms by auto

lemma push_back_repr:
  assumes r: "ll_repr s as" and bound: "Suc (length as) < 2 ^ 64"
  shows "\<exists>s'. push_back v s = Inr s' \<and> ll_repr s' (as @ [length (mem s)]) \<and>
           vals (cell (mem s')) (as @ [length (mem s)]) = vals (cell (mem s)) as @ [v]"
proof -
  let ?a = "length (mem s)" and ?nd = "\<lparr>data = v, next_ptr = None\<rparr>"
  let ?m = "mem s @ [Some ?nd]"
  have fresh: "?a \<notin> set as" using r by (rule ll_repr_fresh)
  have num: "unat (num_items s + 1) = Suc (length as)"
    using r bound by (simp add: ll_repr_def unat_inc)
  show ?thesis
  proof (cases as rule: rev_exhaust)
    case Nil
    with r have "tail s = None" and "head s = None" and "dom (cell (mem s)) = {}"
      by (auto simp: ll_repr_def)
    moreover have "cell ?m = (cell (mem s))(?a \<mapsto> ?nd)" by (simp add: mem_simps)
    ultimately show ?thesis
      using Nil num by (auto simp: push_back_def new_node_def ll_repr_def)
  next
    case (snoc bs t)
    with r have tl: "tail s = Some t" and p: "path (cell (mem s)) (head s) bs (Some t)"
      and dist: "t \<notin> set bs" "?a \<notin> set bs" "t \<noteq> ?a"
      using fresh ll_repr_distinct [OF r] by (auto simp: ll_repr_def path_snoc_node)
    from r snoc obtain nt where nt: "cell (mem s) t = Some nt" by (auto dest: ll_repr_cell)
    with cell_Some_less have tlen: "t < length (mem s)" by blast
    let ?m' = "?m[t := Some (nt\<lparr>next_ptr := Some ?a\<rparr>)]"
    have run: "push_back v s = Inr (s\<lparr>mem := ?m', tail := Some ?a, num_items := num_items s + 1\<rparr>)"
      using tl nt tlen by (simp add: push_back_def new_node_def mem_simps nth_append)
    have cm: "cell ?m' = (cell (mem s))(?a \<mapsto> ?nd, t \<mapsto> nt\<lparr>next_ptr := Some ?a\<rparr>)"
      using tlen by (simp add: mem_simps)
    have "path (cell ?m') (head s) (bs @ [t]) (Some ?a)"
      unfolding cm using p dist nt by (simp add: path_redirect fun_upd_twist)
    then have "path (cell ?m') (head s) ((bs @ [t]) @ [?a]) None"
      using cm dist by auto
    moreover have "dom (cell ?m') = set (as @ [?a])"
      using r snoc nt cm by (auto simp: ll_repr_def)
    ultimately have "ll_repr (s\<lparr>mem := ?m', tail := Some ?a, num_items := num_items s + 1\<rparr>) (as @ [?a])"
      using num snoc by (simp add: ll_repr_def)
    moreover have "vals (cell ?m') (as @ [?a]) = vals (cell (mem s)) as @ [v]"
      using cm snoc dist nt fresh by (simp add: vals_def)
    ultimately show ?thesis using run by auto
  qed
qed

lemma pop_front_repr:
  assumes r: "ll_repr s as"
  shows "\<exists>s'. pop_front s = Inr s' \<and> ll_repr s' (tl as) \<and>
           vals (cell (mem s')) (tl as) = tl (vals (cell (mem s)) as)"
proof (cases as)
  case Nil
  with r show ?thesis by (auto simp: pop_front_def ll_repr_def)
next
  case (Cons a rest)
  with r obtain n where hd: "head s = Some a" and n: "cell (mem s) a = Some n"
    and p: "path (cell (mem s)) (next_ptr n) rest None"
    by (auto simp: ll_repr_def path_Cons_iff)
  have alen: "a < length (mem s)" using n by (rule cell_Some_less)
  have notin: "a \<notin> set rest" using ll_repr_distinct [OF r] Cons by simp
  let ?m = "(mem s)[a := None]"
  let ?s' = "s\<lparr>head := next_ptr n, mem := ?m, num_items := num_items s - 1\<rparr>"
  have cm: "cell ?m = (cell (mem s))(a := None)" using alen by (simp add: mem_simps)
  have run: "pop_front s = Inr (if next_ptr n = None then ?s'\<lparr>tail := None\<rparr> else ?s')"
    using hd n by (simp add: pop_front_def mem_simps Let_def)
  have num: "unat (num_items s - 1) = length rest"
    using r Cons by (simp add: ll_repr_def unat_dec)
  have rep: "ll_repr (if next_ptr n = None then ?s'\<lparr>tail := None\<rparr> else ?s') rest"
    using r Cons p cm notin num path_null_iff [OF p] by (auto simp: ll_repr_def)
  show ?thesis using run rep cm notin Cons by auto
qed

lemma find_before_tail_path:
  "path (cell m) p (xs @ [c, t]) None \<Longrightarrow> distinct (xs @ [c, t]) \<Longrightarrow>
   find_before_tail p (Some t) m = Some (Inr (Some c))"
proof (induction xs arbitrary: p)
  case Nil
  then obtain nc where "p = Some c" "cell m c = Some nc" "next_ptr nc = Some t"
    by auto
  then show ?case by (subst find_before_tail.simps) (simp add: mem_simps)
next
  case (Cons x xs)
  then obtain nx where p: "p = Some x" and nx: "cell m x = Some nx"
    and rest: "path (cell m) (next_ptr nx) (xs @ [c, t]) None"
    by (auto simp: path_Cons_iff)
  have "next_ptr nx = Some (hd (xs @ [c, t]))" using rest by (cases xs) (auto simp: path_Cons_iff)
  moreover have "hd (xs @ [c, t]) \<noteq> t" using Cons.prems(2) by (cases xs) auto
  ultimately have "next_ptr nx \<noteq> Some t" by simp
  moreover have "find_before_tail (next_ptr nx) (Some t) m = Some (Inr (Some c))"
    using Cons.IH rest Cons.prems(2) by simp
  ultimately show ?case
    using p nx by (subst find_before_tail.simps) (simp add: mem_simps)
qed


lemma pop_back_repr:
  assumes r: "ll_repr s as"
  shows "\<exists>s'. pop_back s = Some (Inr s') \<and> ll_repr s' (butlast as) \<and>
           vals (cell (mem s')) (butlast as) = butlast (vals (cell (mem s)) as)"
proof (cases as rule: rev_exhaust)
  case Nil
  with r show ?thesis by (auto simp: pop_back_def ll_repr_def)
next
  case (snoc bs t)
  from r snoc obtain nt where nt: "cell (mem s) t = Some nt" by (auto dest: ll_repr_cell)
  have tlen: "t < length (mem s)" using nt by (rule cell_Some_less)
  have dist: "distinct (bs @ [t])" using ll_repr_distinct [OF r] snoc by simp
  have num: "unat (num_items s - 1) = length bs"
    using r snoc by (simp add: ll_repr_def unat_dec)
  show ?thesis
  proof (cases bs rule: rev_exhaust)
    case Nil
    with r snoc have "head s = Some t" "tail s = Some t" "dom (cell (mem s)) = {t}"
      by (auto simp: ll_repr_def)
    moreover from this(3) have "(cell (mem s))(t := None) = Map.empty"
      by (metis dom_eq_empty_conv dom_fun_upd Diff_cancel)
    ultimately show ?thesis
      using snoc Nil nt tlen num by (auto simp: pop_back_def ll_repr_def mem_simps)
  next
    case (snoc xs c)
    with \<open>as = bs @ [t]\<close> have as: "as = xs @ [c, t]" by simp
    with r obtain nc where nc: "cell (mem s) c = Some nc" by (auto dest: ll_repr_cell)
    have clen: "c < length (mem s)" using nc by (rule cell_Some_less)
    from dist snoc have ct: "c \<noteq> t" "c \<notin> set xs" "t \<notin> set xs" by auto
    from r as have p: "path (cell (mem s)) (head s) (xs @ [c, t]) None" and tl: "tail s = Some t"
      by (auto simp: ll_repr_def)
    have "head s = Some (hd (xs @ [c, t]))" using r as by (simp add: ll_repr_head)
    moreover have "hd (xs @ [c, t]) \<noteq> t" using ct by (cases xs) auto
    ultimately have ht: "head s \<noteq> tail s" using tl by simp
    have loop: "find_before_tail (head s) (tail s) (mem s) = Some (Inr (Some c))"
      using p dist snoc tl by (simp add: find_before_tail_path)
    let ?m = "(mem s)[t := None, c := Some (nc\<lparr>next_ptr := None\<rparr>)]"
    have cm: "cell ?m = ((cell (mem s))(t := None))(c \<mapsto> nc\<lparr>next_ptr := None\<rparr>)"
      using tlen clen by (simp add: mem_simps)
    have run: "pop_back s = Some (Inr (s\<lparr>mem := ?m, tail := Some c, num_items := num_items s - 1\<rparr>))"
      using ht loop tl nt nc tlen ct(1) r as
      by (simp add: pop_back_def mem_simps ll_repr_head split: if_splits)
    have "path (cell (mem s)) (head s) xs (Some c)" using p by auto
    then have "path ((cell (mem s))(t := None)) (head s) xs (Some c)" using ct by simp
    then have "path (cell ?m) (head s) (xs @ [c]) None"
      unfolding cm using ct nc by (intro path_redirect) auto
    moreover have "dom (cell ?m) = set (xs @ [c])"
      using r as cm ct dist by (auto simp: ll_repr_def)
    ultimately have "ll_repr (s\<lparr>mem := ?m, tail := Some c, num_items := num_items s - 1\<rparr>) (xs @ [c])"
      using num snoc by (simp add: ll_repr_def)
    moreover have "vals (cell ?m) (xs @ [c]) = butlast (vals (cell (mem s)) as)"
      using cm ct nc as by (simp add: butlast_append)
    ultimately show ?thesis using run as by (simp add: butlast_append)
  qed
qed

lemma ll_front_repr:
  "ll_repr s as \<Longrightarrow> ll_front s = (if as = [] then Inl (Runtime_error ''List is empty'')
                                   else Inr (hd (vals (cell (mem s)) as)))"
  by (cases as) (auto simp: ll_front_def ll_repr_def mem_simps)

lemma ll_back_repr:
  "ll_repr s as \<Longrightarrow> ll_back s = (if as = [] then Inl (Runtime_error ''List is empty'')
                                  else Inr (last (vals (cell (mem s)) as)))"
proof (cases as rule: rev_exhaust)
  case (snoc bs t)
  moreover assume "ll_repr s as"
  moreover from this snoc obtain n where "cell (mem s) t = Some n" by (auto dest: ll_repr_cell)
  ultimately show ?thesis by (auto simp: ll_back_def ll_repr_def mem_simps)
qed (auto simp: ll_back_def ll_repr_def)

lemma destroy_chain_path:
  "path (cell m) p as None \<Longrightarrow>
   destroy_chain p m = Some (Inr (foldl (\<lambda>m a. m[a := None]) m as))"
proof (induction as arbitrary: p m)
  case Nil
  then show ?case by (simp add: destroy_chain.simps)
next
  case (Cons a as)
  then obtain n where p: "p = Some a" and n: "cell m a = Some n"
    and rest: "path (cell m) (next_ptr n) as None" by auto
  have alen: "a < length m" using n by (rule cell_Some_less)
  have "a \<notin> set as" using n rest by (rule path_None_hd_notin)
  with rest alen have "path (cell (m[a := None])) (next_ptr n) as None" by (simp add: mem_simps)
  then have "destroy_chain (next_ptr n) (m[a := None]) =
             Some (Inr (foldl (\<lambda>m a. m[a := None]) (m[a := None]) as))"
    by (rule Cons.IH)
  then show ?case using p n by (subst destroy_chain.simps) (simp add: mem_simps)
qed


lemma cell_clear:
  "\<forall>a\<in>set as. a < length m \<Longrightarrow>
   cell (foldl (\<lambda>m a. m[a := None]) m as) b = (if b \<in> set as then None else cell m b)"
  by (induction as arbitrary: m) (auto simp: mem_simps)

lemma ll_destroy_repr:
  assumes r: "ll_repr s as"
  shows "\<exists>m. ll_destroy s = Some (Inr m) \<and> dom (cell m) = {}"
proof -
  from r have p: "path (cell (mem s)) (head s) as None" and d: "dom (cell (mem s)) = set as"
    by (simp_all add: ll_repr_def)
  have less: "\<forall>a\<in>set as. a < length (mem s)" using r by (blast dest: ll_repr_less)
  let ?m = "foldl (\<lambda>m a. m[a := None]) (mem s) as"
  have run: "ll_destroy s = Some (Inr ?m)" using p by (simp add: ll_destroy_def destroy_chain_path)
  have "cell ?m b = None" for b
  proof (cases "b \<in> set as")
    case False
    with d have "cell (mem s) b = None" by auto
    with False less show ?thesis by (simp add: cell_clear)
  qed (simp add: cell_clear less)
  then have "dom (cell ?m) = {}" by auto
  with run show ?thesis by blast
qed

lemma ll_repr_inv_list: "ll_repr s as \<Longrightarrow> ll_inv s \<and> ll_list s = vals (cell (mem s)) as"
  by (auto simp: ll_inv_iff_repr ll_repr_list)

lemma ll_inv_repr:
  "ll_inv s \<Longrightarrow> \<exists>as. ll_repr s as \<and> ll_list s = vals (cell (mem s)) as \<and> length (ll_list s) = length as"
  by (auto simp: ll_inv_iff_repr ll_repr_list vals_def)

lemma list_10_20_inv: "ll_inv list_10_20"
  by (simp add: ll_inv_def allocated_def store_eval upt_rec)

lemma list_10_20_list: "ll_list list_10_20 = [10, 20]"
  by (simp add: ll_list_def store_eval)

subsection \<open>The end operations implement the sequence operations\<close>

text \<open>
  C1. \<open>push_back(v)\<close> on a well-formed list never faults, keeps the invariant and
  appends \<open>v\<close> to the sequence, as long as the new count fits in \<open>size_t\<close>.
\<close>

theorem push_back_refines:
  assumes "ll_inv s" and "Suc (length (ll_list s)) < 2 ^ 64"
  shows "\<exists>s'. push_back v s = Inr s' \<and> ll_inv s' \<and> ll_list s' = ll_list s @ [v]"
proof -
  from assms(1) obtain as where r: "ll_repr s as" and l: "ll_list s = vals (cell (mem s)) as"
    and len: "length (ll_list s) = length as" by (blast dest: ll_inv_repr)
  from push_back_repr [OF r] assms(2) len obtain s' where "push_back v s = Inr s'"
    and "ll_repr s' (as @ [length (mem s)])"
    and "vals (cell (mem s')) (as @ [length (mem s)]) = vals (cell (mem s)) as @ [v]" by auto
  with l show ?thesis by (auto dest: ll_repr_inv_list)
qed

theorem push_back_refines_witness:
  "ll_inv linked_list_init \<and> Suc (length (ll_list linked_list_init)) < 2 ^ 64 \<and>
   (\<exists>s'. push_back 10 linked_list_init = Inr s' \<and> ll_inv s' \<and> ll_list s' = [10])"
proof -
  have i: "ll_inv linked_list_init" and l: "ll_list linked_list_init = []"
    by (simp_all add: linked_list_init_def ll_inv_def ll_list_def allocated_def)
  show ?thesis using push_back_refines [OF i, of 10] i l by simp
qed

text \<open>
  C2. \<open>push_front(v)\<close> on a well-formed list never faults, keeps the invariant and
  prepends \<open>v\<close> to the sequence, as long as the new count fits in \<open>size_t\<close>.
\<close>

theorem push_front_refines:
  assumes "ll_inv s" and "Suc (length (ll_list s)) < 2 ^ 64"
  shows "\<exists>s'. push_front v s = Inr s' \<and> ll_inv s' \<and> ll_list s' = v # ll_list s"
proof -
  from assms(1) obtain as where r: "ll_repr s as" and l: "ll_list s = vals (cell (mem s)) as"
    and len: "length (ll_list s) = length as" by (blast dest: ll_inv_repr)
  from push_front_repr [OF r] assms(2) len obtain s' where "push_front v s = Inr s'"
    and "ll_repr s' (length (mem s) # as)"
    and "vals (cell (mem s')) (length (mem s) # as) = v # vals (cell (mem s)) as" by auto
  with l show ?thesis by (auto dest: ll_repr_inv_list)
qed

theorem push_front_refines_witness:
  "ll_inv linked_list_init \<and> Suc (length (ll_list linked_list_init)) < 2 ^ 64 \<and>
   (\<exists>s'. push_front 10 linked_list_init = Inr s' \<and> ll_inv s' \<and> ll_list s' = [10])"
proof -
  have i: "ll_inv linked_list_init" and l: "ll_list linked_list_init = []"
    by (simp_all add: linked_list_init_def ll_inv_def ll_list_def allocated_def)
  show ?thesis using push_front_refines [OF i, of 10] i l by simp
qed

text \<open>
  C3. \<open>pop_back()\<close> on a well-formed list terminates (its search for the node
  before \<open>tail\<close> ends), never faults, keeps the invariant and drops the last
  element; on the empty list it does nothing.
\<close>

theorem pop_back_refines:
  assumes "ll_inv s"
  shows "\<exists>s'. pop_back s = Some (Inr s') \<and> ll_inv s' \<and> ll_list s' = butlast (ll_list s)"
proof -
  from assms obtain as where r: "ll_repr s as" and l: "ll_list s = vals (cell (mem s)) as"
    by (blast dest: ll_inv_repr)
  from pop_back_repr [OF r] obtain s' where "pop_back s = Some (Inr s')"
    and "ll_repr s' (butlast as)"
    and "vals (cell (mem s')) (butlast as) = butlast (vals (cell (mem s)) as)" by auto
  with l show ?thesis by (auto dest: ll_repr_inv_list)
qed

theorem pop_back_refines_witness:
  "ll_inv list_10_20 \<and> (\<exists>s'. pop_back list_10_20 = Some (Inr s') \<and> ll_inv s' \<and> ll_list s' = [10])"
  using pop_back_refines [OF list_10_20_inv] list_10_20_inv list_10_20_list by simp

text \<open>
  C4. \<open>pop_front()\<close> on a well-formed list never faults, keeps the invariant and
  drops the first element; on the empty list it does nothing.
\<close>

theorem pop_front_refines:
  assumes "ll_inv s"
  shows "\<exists>s'. pop_front s = Inr s' \<and> ll_inv s' \<and> ll_list s' = tl (ll_list s)"
proof -
  from assms obtain as where r: "ll_repr s as" and l: "ll_list s = vals (cell (mem s)) as"
    by (blast dest: ll_inv_repr)
  from pop_front_repr [OF r] obtain s' where "pop_front s = Inr s'"
    and "ll_repr s' (tl as)"
    and "vals (cell (mem s')) (tl as) = tl (vals (cell (mem s)) as)" by auto
  with l show ?thesis by (auto dest: ll_repr_inv_list)
qed

theorem pop_front_refines_witness:
  "ll_inv list_10_20 \<and> (\<exists>s'. pop_front list_10_20 = Inr s' \<and> ll_inv s' \<and> ll_list s' = [20])"
  using pop_front_refines [OF list_10_20_inv] list_10_20_inv list_10_20_list by simp

text \<open>
  C5. \<open>front()\<close> and \<open>back()\<close> on a well-formed list return the first and the
  last element, and throw \<open>runtime_error("List is empty")\<close> on the empty list.
\<close>

theorem front_back_spec:
  assumes "ll_inv s"
  shows "ll_front s = (if ll_list s = [] then Inl (Runtime_error ''List is empty'') else Inr (hd (ll_list s)))
       \<and> ll_back s = (if ll_list s = [] then Inl (Runtime_error ''List is empty'') else Inr (last (ll_list s)))"
proof -
  from assms obtain as where r: "ll_repr s as" and l: "ll_list s = vals (cell (mem s)) as"
    by (blast dest: ll_inv_repr)
  have "(ll_list s = []) = (as = [])" using l by (simp add: vals_def)
  then show ?thesis using ll_front_repr [OF r] ll_back_repr [OF r] l by simp
qed

theorem front_back_spec_witness:
  "ll_inv list_10_20 \<and> ll_front list_10_20 = Inr 10 \<and> ll_back list_10_20 = Inr 20"
  using front_back_spec [OF list_10_20_inv] list_10_20_inv list_10_20_list by simp

text \<open>
  C6. The destructor \<open>~Linked_List()\<close> of a well-formed list terminates without
  fault and releases every node: afterwards no cell of the store is allocated.
\<close>

theorem destructor_frees_all:
  assumes "ll_inv s"
  shows "\<exists>m. ll_destroy s = Some (Inr m) \<and> dom (cell m) = {}"
  using assms by (blast dest: ll_inv_repr ll_destroy_repr)

theorem destructor_frees_all_witness:
  "ll_inv list_10_20 \<and> (\<exists>m. ll_destroy list_10_20 = Some (Inr m) \<and> dom (cell m) = {})"
  using destructor_frees_all [OF list_10_20_inv] list_10_20_inv by simp

end
