(* ===== verification/SeqSpec.thy ===== *)
theory SeqSpec
  imports Prelude
begin

text \<open>
  The abstract specification of \<open>Linked_List\<close> (spec section 4.1): the list is a
  sequence of \<open>int\<close>, and its index operations are the following functions on
  HOL lists. \<open>seq_insert\<close> is the clamped insertion (an index past the end
  appends), \<open>seq_remove\<close> deletes the element at an index (the sequence is
  unchanged when there is none), \<open>seq_find\<close> is the position of the first
  occurrence, or the length when there is none, and \<open>seq_print\<close> is the text
  \<open>print_list\<close> writes. The end operations need no definitions of their own:
  they are \<open>Cons\<close>, \<open>@ [v]\<close>, \<open>tl\<close>, \<open>butlast\<close>, \<open>hd\<close> and \<open>last\<close>.
\<close>

definition seq_insert :: "nat \<Rightarrow> 'a \<Rightarrow> 'a list \<Rightarrow> 'a list" where
  "seq_insert i v xs = take i xs @ v # drop i xs"

definition seq_remove :: "nat \<Rightarrow> 'a list \<Rightarrow> 'a list" where
  "seq_remove i xs = take i xs @ drop (Suc i) xs"

definition seq_find :: "'a \<Rightarrow> 'a list \<Rightarrow> nat" where
  "seq_find v xs = length (takeWhile (\<lambda>x. x \<noteq> v) xs)"

definition seq_print :: "int32 list \<Rightarrow> string" where
  "seq_print xs = concat (map (\<lambda>v. print_int32 v @ '' -> '') xs) @ ''NULL\<newline>''"

lemma seq_insert_0 [simp]: "seq_insert 0 v xs = v # xs"
  by (simp add: seq_insert_def)

lemma seq_insert_end: "length xs \<le> i \<Longrightarrow> seq_insert i v xs = xs @ [v]"
  by (simp add: seq_insert_def)

lemma length_seq_insert [simp]: "length (seq_insert i v xs) = Suc (length xs)"
  by (simp add: seq_insert_def)

lemma seq_remove_out [simp]: "length xs \<le> i \<Longrightarrow> seq_remove i xs = xs"
  by (simp add: seq_remove_def)

lemma seq_find_Nil [simp]: "seq_find v [] = 0"
  by (simp add: seq_find_def)

lemma seq_find_Cons [simp]: "seq_find v (x # xs) = (if x = v then 0 else Suc (seq_find v xs))"
  by (simp add: seq_find_def)

lemma seq_find_le: "seq_find v xs \<le> length xs"
  by (simp add: seq_find_def length_takeWhile_le)

lemma seq_find_less_iff: "(seq_find v xs < length xs) = (v \<in> set xs)"
  by (induction xs) auto

lemma seq_find_append_notin: "v \<notin> set xs \<Longrightarrow> seq_find v (xs @ ys) = length xs + seq_find v ys"
  by (induction xs) auto

end
