(* ===== verification/ListIndex.thy ===== *)
theory ListIndex
  imports LinkedList SeqSpec
begin

text \<open>
  The index operations of \<open>Linked_List\<close> (src/main.cpp lines 100--163):
  \<open>insert\<close>, \<open>remove\<close>, \<open>find\<close> and \<open>print_list\<close>. The counted \<open>for\<close> loop that
  walks to the node before an index is \<open>advance\<close>, by recursion on the number
  of iterations \<open>index - 1\<close>; the \<open>while\<close> loops of \<open>find\<close> and \<open>print_list\<close>
  run until a null pointer and are \<^theory_text>\<open>partial_function (option)\<close>. The claims
  show that on a well-formed list each operation terminates, never faults,
  keeps the invariant and refines the corresponding function of \<open>SeqSpec\<close>.
\<close>

text \<open>\<open>for (size_t i = 0; i < k; ++i) current = current->next;\<close>\<close>

primrec advance :: "addr option \<Rightarrow> nat \<Rightarrow> mem \<Rightarrow> addr option res" where
  "advance cur 0 m = Inr cur"
| "advance cur (Suc k) m = ebind (deref cur m) (\<lambda>n. advance (next_ptr n) k m)"

definition ll_insert :: "size_t \<Rightarrow> int32 \<Rightarrow> ll_state \<Rightarrow> ll_state res" where
  "ll_insert index item s =
     (if index = 0 then push_front item s
      else if index \<ge> num_items s then push_back item s
      else (let (a, m) = new_node item (mem s) in
        ebind (advance (head s) (unat (index - 1)) m) (\<lambda>cur.
        ebind (deref cur m) (\<lambda>nc.
        ebind (set_next (Some a) (next_ptr nc) m) (\<lambda>m1.
        ebind (set_next cur (Some a) m1) (\<lambda>m2.
          Inr (s\<lparr>mem := m2, num_items := num_items s + 1\<rparr>)))))))"

definition ll_remove :: "size_t \<Rightarrow> ll_state \<Rightarrow> (bool \<times> ll_state) res" where
  "ll_remove index s =
     (if index \<ge> num_items s then Inr (False, s)
      else if index = 0 then ebind (pop_front s) (\<lambda>s'. Inr (True, s'))
      else
        ebind (advance (head s) (unat (index - 1)) (mem s)) (\<lambda>cur.
        ebind (deref cur (mem s)) (\<lambda>nc.
        let temp = next_ptr nc in
        ebind (deref temp (mem s)) (\<lambda>nt.
        ebind (set_next cur (next_ptr nt) (mem s)) (\<lambda>m1.
        let tail' = (if temp = tail s then cur else tail s) in
        ebind (delete temp m1) (\<lambda>m2.
          Inr (True, s\<lparr>mem := m2, tail := tail', num_items := num_items s - 1\<rparr>)))))))"

text \<open>The loop of \<open>find\<close>: \<open>Some i\<close> is \<open>return index\<close>, \<open>None\<close> leaves the loop.\<close>

partial_function (option) find_from ::
  "addr option \<Rightarrow> size_t \<Rightarrow> int32 \<Rightarrow> mem \<Rightarrow> size_t option res option" where
  "find_from cur index item m =
     (case cur of
        None \<Rightarrow> Some (Inr None)
      | Some _ \<Rightarrow> (case deref cur m of
           Inl e \<Rightarrow> Some (Inl e)
         | Inr n \<Rightarrow> if data n = item then Some (Inr (Some index))
                   else find_from (next_ptr n) (index + 1) item m))"

definition ll_find :: "int32 \<Rightarrow> ll_state \<Rightarrow> size_t res option" where
  "ll_find item s =
     map_option (\<lambda>r. ebind r (\<lambda>found. Inr (case found of Some i \<Rightarrow> i | None \<Rightarrow> num_items s)))
       (find_from (head s) 0 item (mem s))"

text \<open>The loop of \<open>print_list\<close>, with the text written so far.\<close>

partial_function (option) print_from :: "addr option \<Rightarrow> mem \<Rightarrow> string \<Rightarrow> string res option" where
  "print_from cur m out =
     (case cur of
        None \<Rightarrow> Some (Inr out)
      | Some _ \<Rightarrow> (case deref cur m of
           Inl e \<Rightarrow> Some (Inl e)
         | Inr n \<Rightarrow> print_from (next_ptr n) m (out @ print_int32 (data n) @ '' -> '')))"

definition print_list :: "ll_state \<Rightarrow> string res option" where
  "print_list s =
     map_option (\<lambda>r. ebind r (\<lambda>out. Inr (out @ ''NULL\<newline>''))) (print_from (head s) (mem s) [])"

lemma advance_path: "path (cell m) p xs r \<Longrightarrow> advance p (length xs) m = Inr r"
  by (induction xs arbitrary: p) (auto simp: mem_simps)

lemma split_at_index:
  assumes "k < length as"
  shows "as = take k as @ as ! k # drop (Suc k) as"
  using assms by (simp add: id_take_nth_drop)

lemma ll_insert_middle_repr:
  assumes r: "ll_repr s as" and bound: "Suc (length as) < 2 ^ 64"
    and i0: "0 < unat i" and ilt: "unat i < length as"
  shows "\<exists>s' bs. ll_insert i v s = Inr s' \<and> ll_repr s' bs \<and>
           vals (cell (mem s')) bs = seq_insert (unat i) v (vals (cell (mem s)) as)"
proof -
  define k where "k = unat i - 1"
  define xs where "xs = take k as"
  define c where "c = as ! k"
  define ys where "ys = drop (Suc k) as"
  have ik: "unat i = Suc k" using i0 by (simp add: k_def)
  have as: "as = xs @ c # ys"
    using split_at_index [of k as] ilt ik by (simp add: xs_def c_def ys_def)
  have lx: "length xs = k" using ilt ik by (simp add: xs_def)
  have ys: "ys \<noteq> []" using ilt ik by (simp add: ys_def)
  have dist: "distinct (xs @ c # ys)" using ll_repr_distinct [OF r] as by simp
  let ?a = "length (mem s)" and ?nd = "\<lparr>data = v, next_ptr = None\<rparr>"
  have fresh: "?a \<notin> set as" using r by (rule ll_repr_fresh)
  from r have "path (cell (mem s)) (head s) (xs @ c # ys) None" by (simp add: ll_repr_def as)
  then obtain nc where nc: "cell (mem s) c = Some nc"
    and px: "path (cell (mem s)) (head s) xs (Some c)"
    and py: "path (cell (mem s)) (next_ptr nc) ys None"
    by auto
  have clen: "c < length (mem s)" using nc by (rule cell_Some_less)
  let ?m0 = "mem s @ [Some ?nd]"
  let ?m1 = "?m0[?a := Some (?nd\<lparr>next_ptr := next_ptr nc\<rparr>)]"
  let ?m2 = "?m1[c := Some (nc\<lparr>next_ptr := Some ?a\<rparr>)]"
  have c0: "cell ?m0 = (cell (mem s))(?a \<mapsto> ?nd)" by (simp add: mem_simps)
  have c2: "cell ?m2 = (cell (mem s))(?a \<mapsto> ?nd\<lparr>next_ptr := next_ptr nc\<rparr>, c \<mapsto> nc\<lparr>next_ptr := Some ?a\<rparr>)"
    using clen by (simp add: mem_simps)
  have ca: "c \<noteq> ?a" using fresh as by (metis in_set_conv_decomp)
  have adv: "advance (head s) k ?m0 = Inr (Some c)"
  proof -
    have "path (cell ?m0) (head s) xs (Some c)"
      unfolding c0 using px fresh as by (subst path_upd) auto
    then show ?thesis using advance_path lx by fastforce
  qed
  have "i \<noteq> 0" and "\<not> num_items s \<le> i"
    using i0 ilt r by (auto simp: ll_repr_def word_le_unat)
  moreover have "unat (i - 1) = k" using i0 ik by (simp add: unat_dec)
  ultimately have run: "ll_insert i v s = Inr (s\<lparr>mem := ?m2, num_items := num_items s + 1\<rparr>)"
    using adv nc ca clen by (simp add: ll_insert_def new_node_def deref_def set_next_def cell_append)
  have notin: "?a \<notin> set xs" "?a \<notin> set ys" "c \<notin> set xs" "c \<notin> set ys"
    using fresh dist as by auto
  have "path (cell ?m2) (head s) (xs @ c # ?a # ys) None"
    unfolding c2 using px py notin ca nc by auto
  moreover have "last_ptr (xs @ c # ?a # ys) = tail s"
    using r ys as by (simp add: ll_repr_def)
  moreover have "unat (num_items s + 1) = length (xs @ c # ?a # ys)"
    using r bound as by (simp add: ll_repr_def unat_inc)
  moreover have "dom (cell ?m2) = set (xs @ c # ?a # ys)"
    using r as nc c2 by (auto simp: ll_repr_def)
  ultimately have "ll_repr (s\<lparr>mem := ?m2, num_items := num_items s + 1\<rparr>) (xs @ c # ?a # ys)"
    by (simp add: ll_repr_def)
  moreover have "vals (cell ?m2) (xs @ c # ?a # ys) = seq_insert (unat i) v (vals (cell (mem s)) as)"
  proof -
    have "vals (cell ?m2) (xs @ c # ?a # ys) = vals (cell (mem s)) (xs @ [c]) @ v # vals (cell (mem s)) ys"
      unfolding c2 using notin ca nc by simp
    also have "\<dots> = seq_insert (unat i) v (vals (cell (mem s)) as)"
      using ik lx as by (simp add: seq_insert_def)
    finally show ?thesis .
  qed
  ultimately show ?thesis using run by auto
qed


lemma ll_insert_repr:
  assumes r: "ll_repr s as" and bound: "Suc (length as) < 2 ^ 64"
  shows "\<exists>s' bs. ll_insert i v s = Inr s' \<and> ll_repr s' bs \<and>
           vals (cell (mem s')) bs = seq_insert (unat i) v (vals (cell (mem s)) as)"
proof -
  have num: "unat (num_items s) = length as" using r by (simp add: ll_repr_def)
  consider "i = 0" | "i \<noteq> 0" "num_items s \<le> i" | "0 < unat i" "unat i < length as"
    using num by (cases "unat i = 0"; cases "length as \<le> unat i") (auto simp: word_le_unat word_eq_0_unat)
  then show ?thesis
  proof cases
    case 1
    have e1: "ll_insert i v s = push_front v s" using 1 by (simp add: ll_insert_def)
    have e2: "seq_insert (unat i) v (vals (cell (mem s)) as) = v # vals (cell (mem s)) as"
      using 1 by simp
    from push_front_repr [OF r bound, of v] show ?thesis unfolding e1 e2 by blast
  next
    case 2
    have e1: "ll_insert i v s = push_back v s" using 2 by (simp add: ll_insert_def)
    have "length (vals (cell (mem s)) as) \<le> unat i" using 2 num by (simp add: word_le_unat)
    then have e2: "seq_insert (unat i) v (vals (cell (mem s)) as) = vals (cell (mem s)) as @ [v]"
      by (rule seq_insert_end)
    from push_back_repr [OF r bound, of v] show ?thesis unfolding e1 e2 by blast
  next
    case 3
    with ll_insert_middle_repr [OF r bound] show ?thesis by blast
  qed
qed

lemma ll_remove_middle_repr:
  assumes r: "ll_repr s as" and i0: "0 < unat i" and ilt: "unat i < length as"
  shows "\<exists>s' bs. ll_remove i s = Inr (True, s') \<and> ll_repr s' bs \<and>
           vals (cell (mem s')) bs = seq_remove (unat i) (vals (cell (mem s)) as)"
proof -
  define k where "k = unat i - 1"
  define xs where "xs = take k as"
  define c where "c = as ! k"
  define d where "d = as ! Suc k"
  define ys where "ys = drop (Suc (Suc k)) as"
  have ik: "unat i = Suc k" using i0 by (simp add: k_def)
  have as: "as = xs @ c # d # ys"
  proof -
    have "as = take k as @ as ! k # drop (Suc k) as" using ilt ik by (simp add: split_at_index)
    moreover have "drop (Suc k) as = as ! Suc k # drop (Suc (Suc k)) as"
      using ilt ik by (simp add: Cons_nth_drop_Suc)
    ultimately show ?thesis by (simp add: xs_def c_def d_def ys_def)
  qed
  have lx: "length xs = k" using ilt ik by (simp add: xs_def)
  have dist: "distinct (xs @ c # d # ys)" using ll_repr_distinct [OF r] as by simp
  from r have "path (cell (mem s)) (head s) (xs @ c # d # ys) None" by (simp add: ll_repr_def as)
  then obtain nc nd where nc: "cell (mem s) c = Some nc" and ncd: "next_ptr nc = Some d"
    and nd: "cell (mem s) d = Some nd"
    and px: "path (cell (mem s)) (head s) xs (Some c)"
    and py: "path (cell (mem s)) (next_ptr nd) ys None"
    by auto
  have clen: "c < length (mem s)" using nc by (rule cell_Some_less)
  have dlen: "d < length (mem s)" using nd by (rule cell_Some_less)
  have notin: "c \<notin> set xs" "c \<notin> set ys" "d \<notin> set xs" "d \<notin> set ys" "c \<noteq> d"
    using dist by auto
  let ?tail' = "if Some d = tail s then Some c else tail s"
  let ?m = "(mem s)[c := Some (nc\<lparr>next_ptr := next_ptr nd\<rparr>), d := None]"
  have cm: "cell ?m = ((cell (mem s))(c \<mapsto> nc\<lparr>next_ptr := next_ptr nd\<rparr>))(d := None)"
    using clen dlen by (simp add: mem_simps)
  have adv: "advance (head s) k (mem s) = Inr (Some c)" using advance_path [OF px] lx by simp
  have "\<not> num_items s \<le> i" and "i \<noteq> 0" and "unat (i - 1) = k"
    using r i0 ilt ik by (auto simp: ll_repr_def word_le_unat unat_dec)
  then have run: "ll_remove i s = Inr (True, s\<lparr>mem := ?m, tail := ?tail', num_items := num_items s - 1\<rparr>)"
    using adv nc ncd nd notin(5) clen by (simp add: ll_remove_def deref_def set_next_def delete_def cell_update Let_def)
  have "path (cell ?m) (head s) (xs @ c # ys) None"
    unfolding cm using px py notin nc by auto
  moreover have "?tail' = last_ptr (xs @ c # ys)"
    using r as notin by (cases ys) (auto simp: ll_repr_def dest: last_ptr_in [OF sym])
  moreover have "unat (num_items s - 1) = length (xs @ c # ys)"
    using r as by (simp add: ll_repr_def unat_dec)
  moreover have "dom (cell ?m) = set (xs @ c # ys)"
    using r as cm dist nc by (auto simp: ll_repr_def)
  ultimately have "ll_repr (s\<lparr>mem := ?m, tail := ?tail', num_items := num_items s - 1\<rparr>) (xs @ c # ys)"
    by (simp add: ll_repr_def)
  moreover have "vals (cell ?m) (xs @ c # ys) = seq_remove (unat i) (vals (cell (mem s)) as)"
    unfolding cm using notin nc as ik lx by (simp add: seq_remove_def)
  ultimately show ?thesis using run by auto
qed

lemma ll_remove_repr:
  assumes r: "ll_repr s as"
  shows "\<exists>s' bs. ll_remove i s = Inr (unat i < length as, s') \<and> ll_repr s' bs \<and>
           vals (cell (mem s')) bs = seq_remove (unat i) (vals (cell (mem s)) as) \<and>
           (length as \<le> unat i \<longrightarrow> s' = s)"
proof -
  have num: "unat (num_items s) = length as" using r by (simp add: ll_repr_def)
  consider "length as \<le> unat i" | "i = 0" "0 < length as" | "0 < unat i" "unat i < length as"
    using num by (cases "unat i = 0"; cases "length as \<le> unat i") (auto simp: word_eq_0_unat)
  then show ?thesis
  proof cases
    case 1
    with r num show ?thesis by (auto simp: ll_remove_def word_le_unat)
  next
    case 2
    then have "\<not> num_items s \<le> i" using num by (simp add: word_le_unat)
    moreover have "seq_remove 0 (vals h as) = tl (vals h as)" for h
      by (cases as) (simp_all add: seq_remove_def)
    ultimately show ?thesis using 2 pop_front_repr [OF r] by (auto simp: ll_remove_def)
  next
    case 3
    with ll_remove_middle_repr [OF r] show ?thesis by fastforce
  qed
qed

lemma find_from_path:
  "path (cell m) p as None \<Longrightarrow>
   find_from p idx v m =
     Some (Inr (if v \<in> set (vals (cell m) as)
                then Some (idx + word_of_nat (seq_find v (vals (cell m) as))) else None))"
proof (induction as arbitrary: p idx)
  case Nil
  then show ?case by (simp add: find_from.simps)
next
  case (Cons a as)
  then obtain n where p: "p = Some a" and n: "cell m a = Some n"
    and rest: "path (cell m) (next_ptr n) as None" by auto
  show ?case
  proof (cases "data n = v")
    case True
    with p n show ?thesis by (subst find_from.simps) (simp add: mem_simps)
  next
    case False
    have "find_from (next_ptr n) (idx + 1) v m =
          Some (Inr (if v \<in> set (vals (cell m) as)
                     then Some (idx + 1 + word_of_nat (seq_find v (vals (cell m) as))) else None))"
      using rest by (rule Cons.IH)
    with False p n show ?thesis by (subst find_from.simps) (simp add: mem_simps ac_simps)
  qed
qed

lemma print_from_path:
  "path (cell m) p as None \<Longrightarrow>
   print_from p m out = Some (Inr (out @ concat (map (\<lambda>v. print_int32 v @ '' -> '') (vals (cell m) as))))"
proof (induction as arbitrary: p out)
  case Nil
  then show ?case by (simp add: print_from.simps)
next
  case (Cons a as)
  then obtain n where p: "p = Some a" and n: "cell m a = Some n"
    and rest: "path (cell m) (next_ptr n) as None" by auto
  from Cons.IH [OF rest] p n show ?case by (subst print_from.simps) (simp add: mem_simps)
qed


lemma ll_find_repr:
  assumes r: "ll_repr s as"
  shows "ll_find v s =
           Some (Inr (if v \<in> set (vals (cell (mem s)) as)
                      then word_of_nat (seq_find v (vals (cell (mem s)) as)) else num_items s))"
proof -
  have "path (cell (mem s)) (head s) as None" using r by (simp add: ll_repr_def)
  then show ?thesis by (simp add: ll_find_def find_from_path)
qed

lemma print_list_repr:
  assumes "ll_repr s as"
  shows "print_list s = Some (Inr (seq_print (vals (cell (mem s)) as)))"
proof -
  from assms have "path (cell (mem s)) (head s) as None" by (simp add: ll_repr_def)
  from print_from_path [OF this, of "[]"] show ?thesis by (simp add: print_list_def seq_print_def)
qed

subsection \<open>The index operations implement the sequence operations\<close>

text \<open>
  C7. \<open>insert(index, item)\<close> on a well-formed list never faults, keeps the
  invariant and performs the clamped insertion of the specification: at the
  front for index 0, at the end for an index at or past the size, before the
  element at \<open>index\<close> otherwise (when the new size fits in \<open>size_t\<close>).
\<close>

theorem insert_refines:
  assumes "ll_inv s" and "Suc (length (ll_list s)) < 2 ^ 64"
  shows "\<exists>s'. ll_insert i v s = Inr s' \<and> ll_inv s' \<and> ll_list s' = seq_insert (unat i) v (ll_list s)"
proof -
  from assms(1) obtain as where r: "ll_repr s as" and l: "ll_list s = vals (cell (mem s)) as"
    and len: "length (ll_list s) = length as" by (blast dest: ll_inv_repr)
  have b: "Suc (length as) < 2 ^ 64" using assms(2) len by simp
  from ll_insert_repr [OF r b, of i v] obtain s' bs where "ll_insert i v s = Inr s'"
    and "ll_repr s' bs" and "vals (cell (mem s')) bs = seq_insert (unat i) v (vals (cell (mem s)) as)"
    by blast
  with l show ?thesis by (auto dest: ll_repr_inv_list)
qed

theorem insert_refines_witness:
  "ll_inv list_10_20 \<and> Suc (length (ll_list list_10_20)) < 2 ^ 64 \<and>
   (\<exists>s'. ll_insert 1 99 list_10_20 = Inr s' \<and> ll_inv s' \<and> ll_list s' = [10, 99, 20])"
  using insert_refines [OF list_10_20_inv, of 1 99] list_10_20_inv list_10_20_list
  by (simp add: seq_insert_def)

text \<open>
  C8. \<open>remove(index)\<close> on a well-formed list never faults and keeps the
  invariant; it returns whether \<open>index\<close> is below the size, removes exactly the
  element at \<open>index\<close> when it is, and leaves the object unchanged when it is not.
\<close>

theorem remove_refines:
  assumes "ll_inv s"
  shows "\<exists>s'. ll_remove i s = Inr (unat i < length (ll_list s), s') \<and> ll_inv s' \<and>
              ll_list s' = seq_remove (unat i) (ll_list s) \<and> (length (ll_list s) \<le> unat i \<longrightarrow> s' = s)"
proof -
  from assms obtain as where r: "ll_repr s as" and l: "ll_list s = vals (cell (mem s)) as"
    and len: "length (ll_list s) = length as" by (blast dest: ll_inv_repr)
  from ll_remove_repr [OF r, of i] obtain s' bs where
    "ll_remove i s = Inr (unat i < length as, s')" and "ll_repr s' bs"
    and "vals (cell (mem s')) bs = seq_remove (unat i) (vals (cell (mem s)) as)"
    and "length as \<le> unat i \<longrightarrow> s' = s" by blast
  with l len show ?thesis by (auto dest: ll_repr_inv_list)
qed

theorem remove_refines_witness:
  "ll_inv list_10_20 \<and>
   (\<exists>s'. ll_remove 0 list_10_20 = Inr (True, s') \<and> ll_inv s' \<and> ll_list s' = [20]) \<and>
   ll_remove 2 list_10_20 = Inr (False, list_10_20)"
  using remove_refines [OF list_10_20_inv, of 0] remove_refines [OF list_10_20_inv, of 2]
    list_10_20_inv list_10_20_list
  by (simp add: seq_remove_def)

text \<open>
  C9. \<open>find(item)\<close> on a well-formed list terminates without fault and returns
  the position of the first occurrence of \<open>item\<close>, or the size when there is
  none.
\<close>

theorem find_correct:
  assumes "ll_inv s"
  shows "\<exists>r. ll_find v s = Some (Inr r) \<and> unat r = seq_find v (ll_list s)"
proof -
  from assms obtain as where r: "ll_repr s as" and l: "ll_list s = vals (cell (mem s)) as"
    by (blast dest: ll_inv_repr)
  have num: "unat (num_items s) = length as" using r by (simp add: ll_repr_def)
  have "unat (num_items s) < 2 ^ LENGTH(64)" by (rule unsigned_less)
  with num have small: "length as < 2 ^ 64" by simp
  show ?thesis
  proof (cases "v \<in> set (ll_list s)")
    case True
    then have "seq_find v (ll_list s) < 2 ^ 64"
      using seq_find_less_iff [of v "ll_list s"] small l by simp
    with True show ?thesis using ll_find_repr [OF r] l by (simp add: unat_of_nat_small)
  next
    case False
    then have "seq_find v (ll_list s) = length as"
      using seq_find_le [of v "ll_list s"] seq_find_less_iff [of v "ll_list s"] l by simp
    with False show ?thesis using ll_find_repr [OF r] l num by simp
  qed
qed

theorem find_correct_witness:
  "ll_inv list_10_20 \<and> ll_find 20 list_10_20 = Some (Inr 1) \<and> ll_find 7 list_10_20 = Some (Inr 2)"
proof -
  obtain r where "ll_find 20 list_10_20 = Some (Inr r)" "unat r = 1"
    using find_correct [OF list_10_20_inv, of 20] list_10_20_list by auto
  moreover obtain r' where "ll_find 7 list_10_20 = Some (Inr r')" "unat r' = 2"
    using find_correct [OF list_10_20_inv, of 7] list_10_20_list by auto
  ultimately show ?thesis using list_10_20_inv by (simp add: word_unat_eq_iff)
qed

text \<open>
  C10. \<open>print_list()\<close> on a well-formed list terminates without fault and writes
  each element in order, each followed by \<open>" -> "\<close>, then \<open>NULL\<close> and a newline.
\<close>

theorem print_list_spec:
  assumes "ll_inv s"
  shows "print_list s = Some (Inr (seq_print (ll_list s)))"
proof -
  from assms obtain as where r: "ll_repr s as" and l: "ll_list s = vals (cell (mem s)) as"
    by (blast dest: ll_inv_repr)
  then have "path (cell (mem s)) (head s) as None" by (simp add: ll_repr_def)
  then show ?thesis using l by (simp add: print_list_def print_from_path seq_print_def)
qed

theorem print_list_spec_witness:
  "ll_inv list_10_20 \<and> print_list list_10_20 = Some (Inr ''10 -> 20 -> NULL\<newline>'')"
  using print_list_spec [OF list_10_20_inv] list_10_20_inv list_10_20_list
  by (simp add: seq_print_def print_int32_def int_dec_def nat_dec.simps digit_char_def)

text \<open>
  C11. After \<open>push_back(x)\<close>, \<open>find(x)\<close> returns the size before the push
  exactly when \<open>x\<close> was not already in the list: otherwise it returns the
  earlier position. The round trip of spec section 8 holds only for fresh values.
\<close>

theorem push_back_find_roundtrip:
  assumes "ll_inv s" and "Suc (length (ll_list s)) < 2 ^ 64" and "push_back x s = Inr s'"
  shows "ll_find x s' = Some (Inr (ll_size s)) \<longleftrightarrow> x \<notin> set (ll_list s)"
proof -
  from assms(1) obtain as where r: "ll_repr s as" and l: "ll_list s = vals (cell (mem s)) as"
    and len: "length (ll_list s) = length as" by (blast dest: ll_inv_repr)
  have b: "Suc (length as) < 2 ^ 64" using assms(2) len by simp
  from push_back_repr [OF r b, of x] obtain s'' where "push_back x s = Inr s''"
    and r'': "ll_repr s'' (as @ [length (mem s)])"
    and v'': "vals (cell (mem s'')) (as @ [length (mem s)]) = vals (cell (mem s)) as @ [x]"
    by blast
  with assms(3) have "s'' = s'" by simp
  with r'' v'' l have r': "ll_repr s' (as @ [length (mem s)])"
    and v': "vals (cell (mem s')) (as @ [length (mem s)]) = ll_list s @ [x]" by simp_all
  have num: "unat (num_items s) = length as" using r by (simp add: ll_repr_def)
  have small: "Suc (length as) < 2 ^ 64" using assms(2) len by simp
  let ?xs = "ll_list s @ [x]"
  have fnd: "ll_find x s' = Some (Inr (word_of_nat (seq_find x ?xs)))"
    using ll_find_repr [OF r'] v' by simp
  have "seq_find x ?xs \<le> length (ll_list s)"
    using seq_find_less_iff [of x ?xs] by simp
  then have u: "unat (word_of_nat (seq_find x ?xs) :: size_t) = seq_find x ?xs"
    using small len by (simp add: unat_of_nat_small)
  have "(word_of_nat (seq_find x ?xs) = num_items s) = (seq_find x ?xs = length as)"
    using u num by (metis word_unat_eq_iff)
  moreover have "(seq_find x ?xs = length as) = (x \<notin> set (ll_list s))"
    using seq_find_less_iff [of x "ll_list s"] seq_find_append_notin [of x "ll_list s" "[x]"] len
    by (cases "x \<in> set (ll_list s)") (auto simp: seq_find_def)
  ultimately show ?thesis using fnd by (simp add: ll_size_def)
qed

theorem push_back_find_roundtrip_witness:
  "(\<exists>s'. push_back 30 list_10_20 = Inr s' \<and> ll_find 30 s' = Some (Inr (ll_size list_10_20))) \<and>
   (\<exists>s'. push_back 10 list_10_20 = Inr s' \<and> ll_find 10 s' \<noteq> Some (Inr (ll_size list_10_20)))"
proof -
  have i: "ll_inv list_10_20" by (rule list_10_20_inv)
  have b: "Suc (length (ll_list list_10_20)) < 2 ^ 64" using list_10_20_list by simp
  obtain as where r: "ll_repr list_10_20 as" using i by (auto simp: ll_inv_iff_repr)
  have "length (vals (cell (mem list_10_20)) as) = 2"
    using ll_repr_list [OF r] list_10_20_list by simp
  then have b': "Suc (length as) < 2 ^ 64" by simp
  obtain s1 where s1: "push_back 30 list_10_20 = Inr s1"
    using push_back_repr [OF r b'] by blast
  obtain s2 where s2: "push_back 10 list_10_20 = Inr s2"
    using push_back_repr [OF r b'] by blast
  have "ll_find 30 s1 = Some (Inr (ll_size list_10_20))"
    using push_back_find_roundtrip [OF i b s1] list_10_20_list by simp
  moreover have "ll_find 10 s2 \<noteq> Some (Inr (ll_size list_10_20))"
    using push_back_find_roundtrip [OF i b s2] list_10_20_list by simp
  ultimately show ?thesis using s1 s2 by blast
qed

end
