(* ===== verification/ListRun.thy ===== *)
theory ListRun
  imports ListIndex
begin

text \<open>
  Sequences of operations on one \<open>Linked_List\<close> object. The mutators are one
  datatype \<open>ll_op\<close> with the step function \<open>ll_exec\<close> (the interface a client
  such as \<open>main\<close> uses), \<open>seq_exec\<close> is the same operation on the abstract
  sequence, and \<open>ll_run\<close> executes a list of operations in order, stopping at
  the first fault or non-returning loop. \<open>ll_lifetime\<close> is the whole life of a
  local \<open>Linked_List\<close> variable: constructed, used by a run, and destroyed at the
  end of its scope, returning the store the destructor leaves.
\<close>

datatype ll_op =
    PushFront int32
  | PushBack int32
  | PopFront
  | PopBack
  | Insert size_t int32
  | Remove size_t

fun ll_exec :: "ll_op \<Rightarrow> ll_state \<Rightarrow> ll_state res option" where
  "ll_exec (PushFront v) s = Some (push_front v s)"
| "ll_exec (PushBack v) s = Some (push_back v s)"
| "ll_exec PopFront s = Some (pop_front s)"
| "ll_exec PopBack s = pop_back s"
| "ll_exec (Insert i v) s = Some (ll_insert i v s)"
| "ll_exec (Remove i) s = Some (map_sum id snd (ll_remove i s))"

fun seq_exec :: "ll_op \<Rightarrow> int32 list \<Rightarrow> int32 list" where
  "seq_exec (PushFront v) xs = v # xs"
| "seq_exec (PushBack v) xs = xs @ [v]"
| "seq_exec PopFront xs = tl xs"
| "seq_exec PopBack xs = butlast xs"
| "seq_exec (Insert i v) xs = seq_insert (unat i) v xs"
| "seq_exec (Remove i) xs = seq_remove (unat i) xs"

fun ll_run :: "ll_op list \<Rightarrow> ll_state \<Rightarrow> ll_state res option" where
  "ll_run [] s = Some (Inr s)"
| "ll_run (op # ops) s = rbind (ll_exec op s) (ll_run ops)"

definition seq_run :: "ll_op list \<Rightarrow> int32 list \<Rightarrow> int32 list" where
  "seq_run ops xs = fold seq_exec ops xs"

definition ll_lifetime :: "ll_op list \<Rightarrow> mem res option" where
  "ll_lifetime ops = rbind (ll_run ops linked_list_init) ll_destroy"

subsection \<open>Steps and runs on the representation\<close>

lemma length_seq_exec: "length (seq_exec op xs) \<le> Suc (length xs)"
  by (cases op) (auto simp: seq_remove_def)

lemma seq_run_simps [simp]:
  "seq_run [] xs = xs" "seq_run (op # ops) xs = seq_run ops (seq_exec op xs)"
  by (simp_all add: seq_run_def)

lemma ll_exec_refines_repr:
  assumes r: "ll_repr s as" and bound: "Suc (length as) < 2 ^ 64"
  shows "\<exists>s' bs. ll_exec op s = Some (Inr s') \<and> ll_repr s' bs \<and>
           vals (cell (mem s')) bs = seq_exec op (vals (cell (mem s)) as)"
proof (cases op)
  case (PushFront v)
  with push_front_repr [OF r bound, of v] show ?thesis
    by (simp only: ll_exec.simps seq_exec.simps option.simps sum.simps) blast
next
  case (PushBack v)
  with push_back_repr [OF r bound, of v] show ?thesis
    by (simp only: ll_exec.simps seq_exec.simps option.simps sum.simps) blast
next
  case PopFront
  with pop_front_repr [OF r] show ?thesis
    by (simp only: ll_exec.simps seq_exec.simps option.simps sum.simps) blast
next
  case PopBack
  with pop_back_repr [OF r] show ?thesis
    by (simp only: ll_exec.simps seq_exec.simps option.simps sum.simps) blast
next
  case (Insert i v)
  with ll_insert_repr [OF r bound, of i v] show ?thesis by auto
next
  case (Remove i)
  with ll_remove_repr [OF r, of i] show ?thesis by fastforce
qed

lemma ll_run_repr:
  "ll_repr s as \<Longrightarrow> length as + length ops < 2 ^ 64 \<Longrightarrow>
   \<exists>s' bs. ll_run ops s = Some (Inr s') \<and> ll_repr s' bs \<and>
           vals (cell (mem s')) bs = seq_run ops (vals (cell (mem s)) as)"
proof (induction ops arbitrary: s as)
  case Nil
  then show ?case by auto
next
  case (Cons op ops)
  from Cons.prems have "Suc (length as) < 2 ^ 64" by simp
  from ll_exec_refines_repr [OF Cons.prems(1) this, of op] obtain s1 bs1
    where e: "ll_exec op s = Some (Inr s1)" and r1: "ll_repr s1 bs1"
      and v1: "vals (cell (mem s1)) bs1 = seq_exec op (vals (cell (mem s)) as)" by blast
  have "length bs1 \<le> Suc (length as)"
    using length_seq_exec [of op "vals (cell (mem s)) as"] v1 by (metis length_vals)
  with Cons.prems(2) have "length bs1 + length ops < 2 ^ 64" by simp
  from Cons.IH [OF r1 this] e v1 show ?case by simp
qed

lemma ll_repr_Nil_empty: "ll_repr s [] \<Longrightarrow> ll_empty s \<and> dom (cell (mem s)) = {}"
  by (simp add: ll_repr_def ll_empty_def word_eq_0_unat)

lemma ll_run_pop_front:
  "ll_repr s as \<Longrightarrow> \<exists>s'. ll_run (replicate k PopFront) s = Some (Inr s') \<and> ll_repr s' (drop k as)"
proof (induction k arbitrary: s as)
  case (Suc k)
  from pop_front_repr [OF Suc.prems] obtain s1 where "pop_front s = Inr s1" "ll_repr s1 (tl as)"
    by blast
  with Suc.IH [of s1 "tl as"] show ?case by (simp add: drop_Suc)
qed simp

lemma ll_run_pop_back:
  "ll_repr s as \<Longrightarrow>
   \<exists>s'. ll_run (replicate k PopBack) s = Some (Inr s') \<and> ll_repr s' (take (length as - k) as)"
proof (induction k arbitrary: s as)
  case (Suc k)
  from pop_back_repr [OF Suc.prems] obtain s1 where "pop_back s = Some (Inr s1)" "ll_repr s1 (butlast as)"
    by blast
  with Suc.IH [of s1 "butlast as"] show ?case by (simp add: butlast_conv_take)
qed simp

subsection \<open>Runs of operations\<close>

text \<open>
  C18. Any sequence of operations on a well-formed list runs to completion
  without fault, keeps the invariant at every step, and acts on the sequence as
  the abstract operations applied in the same order, as long as the counter
  cannot overflow (the length plus the number of operations stays below
  \<open>2 ^ 64\<close>).
\<close>

theorem run_refines:
  assumes "ll_inv s" and "length (ll_list s) + length ops < 2 ^ 64"
  shows "\<exists>s'. ll_run ops s = Some (Inr s') \<and> ll_inv s' \<and> ll_list s' = seq_run ops (ll_list s)"
proof -
  from assms(1) obtain as where r: "ll_repr s as" and l: "ll_list s = vals (cell (mem s)) as"
    and n: "length (ll_list s) = length as" by (blast dest: ll_inv_repr)
  from ll_run_repr [OF r, of ops] assms(2) n obtain s' bs where "ll_run ops s = Some (Inr s')"
    and "ll_repr s' bs" and "vals (cell (mem s')) bs = seq_run ops (vals (cell (mem s)) as)" by auto
  with l show ?thesis by (auto dest: ll_repr_inv_list)
qed

theorem run_refines_witness:
  "ll_inv list_10_20 \<and> length (ll_list list_10_20) + length [PushBack 30, Insert 1 99, PopFront, Remove 5] < 2 ^ 64 \<and>
   (\<exists>s'. ll_run [PushBack 30, Insert 1 99, PopFront, Remove 5] list_10_20 = Some (Inr s') \<and>
         ll_inv s' \<and> ll_list s' = [99, 20, 30])"
  using run_refines [OF list_10_20_inv, of "[PushBack 30, Insert 1 99, PopFront, Remove 5]"]
    list_10_20_inv list_10_20_list by (simp add: seq_insert_def seq_remove_def)

text \<open>
  C19. No leak over the life of a list: a \<open>Linked_List\<close> constructed, used by
  any sequence of operations and destroyed at the end of its scope completes
  without fault, and afterwards no node is allocated.
\<close>

theorem lifetime_no_leak:
  assumes "length ops < 2 ^ 64"
  shows "\<exists>m. ll_lifetime ops = Some (Inr m) \<and> dom (cell m) = {}"
proof -
  from ll_run_repr [OF ll_repr_init, of ops] assms obtain s' bs
    where "ll_run ops linked_list_init = Some (Inr s')" and "ll_repr s' bs" by auto
  then show ?thesis by (auto simp: ll_lifetime_def dest: ll_destroy_repr)
qed

theorem lifetime_no_leak_witness:
  "length [PushBack 1, PushFront 2, Insert 1 3, PopBack] < 2 ^ 64 \<and>
   (\<exists>m. ll_lifetime [PushBack 1, PushFront 2, Insert 1 3, PopBack] = Some (Inr m) \<and> dom (cell m) = {})"
  using lifetime_no_leak [of "[PushBack 1, PushFront 2, Insert 1 3, PopBack]"] by simp

end
