(* ===== verification/ListFaults.thy ===== *)
theory ListFaults
  imports ListIndex
begin

text \<open>
  The list's loops on states outside the representation invariant, as a
  corrupted list (one whose \<open>next\<close> pointers were overwritten, or whose nodes
  were freed behind its back) would present them. \<open>chain_end h p as q\<close>: following
  \<open>next\<close> from \<open>p\<close> through the allocated nodes \<open>as\<close> stops at \<open>q\<close>, which is
  null or a freed node, the two places where the loops of \<open>print_list\<close>,
  \<open>find\<close> and the destructor leave their \<open>while\<close>.
\<close>

definition chain_end :: "(addr \<Rightarrow> node option) \<Rightarrow> addr option \<Rightarrow> addr list \<Rightarrow> addr option \<Rightarrow> bool" where
  "chain_end h p as q \<longleftrightarrow> path h p as q \<and> (case q of None \<Rightarrow> True | Some a \<Rightarrow> h a = None)"

text \<open>The list 10, 20 of \<open>list_10_20\<close> with its last \<open>next\<close> pointer overwritten to \<open>head\<close>.\<close>

abbreviation cyclic_10_20 :: ll_state where
  "cyclic_10_20 \<equiv> \<lparr>mem = [Some \<lparr>data = 10, next_ptr = Some 1\<rparr>, Some \<lparr>data = 20, next_ptr = Some 0\<rparr>],
                    head = Some 0, tail = Some 1, num_items = 2\<rparr>"

text \<open>The list 10, 20 of \<open>list_10_20\<close> with its counter overwritten to 5.\<close>

abbreviation miscounted_10_20 :: ll_state where
  "miscounted_10_20 \<equiv> list_10_20\<lparr>num_items := 5\<rparr>"

subsection \<open>Chains\<close>

lemma path_set_cell: "path h p as q \<Longrightarrow> b \<in> set as \<Longrightarrow> \<exists>n. h b = Some n"
  by (induction as arbitrary: p) auto

lemma path_cycle_next:
  assumes c: "path h (Some a) as (Some a)" and b: "b \<in> set as" and n: "h b = Some n"
  shows "next_ptr n \<in> Some ` set as"
proof -
  from b obtain xs ys where as: "as = xs @ b # ys" by (auto simp: in_set_conv_decomp)
  with c n have rest: "path h (next_ptr n) ys (Some a)" by auto
  have "a \<in> set as" using c b by (cases as) auto
  with rest as show ?thesis by (cases ys) auto
qed

lemma vals_notin: "v \<notin> set (vals h as) \<Longrightarrow> b \<in> set as \<Longrightarrow> h b = Some n \<Longrightarrow> data n \<noteq> v"
  by (force simp: vals_def)

subsection \<open>When \<open>print_list\<close>'s loop ends\<close>

lemma print_from_chain_end: "chain_end (cell m) p as q \<Longrightarrow> \<exists>r. print_from p m out = Some r"
proof (induction as arbitrary: p out)
  case Nil
  then show ?case by (cases q) (auto simp: chain_end_def print_from.simps deref_def)
next
  case (Cons a as)
  then obtain n where p: "p = Some a" and n: "cell m a = Some n"
    and rest: "chain_end (cell m) (next_ptr n) as q" by (auto simp: chain_end_def)
  from Cons.IH [OF rest] p n show ?case by (subst print_from.simps) (simp add: mem_simps)
qed

lemma print_from_returns:
  assumes "print_from p m out = Some r"
  shows "\<exists>as q. chain_end (cell m) p as q"
proof (rule print_from.raw_induct [where P = "\<lambda>p m out r. \<exists>as q. chain_end (cell m) p as q", OF _ assms])
  fix f p m out r
  assume IH: "\<And>p m out r. f p m out = Some r \<Longrightarrow> \<exists>as q. chain_end (cell m) p as q"
    and eq: "(case p of None \<Rightarrow> Some (Inr out)
              | Some _ \<Rightarrow> (case deref p m of Inl e \<Rightarrow> Some (Inl e)
                 | Inr n \<Rightarrow> f (next_ptr n) m (out @ print_int32 (data n) @ '' -> ''))) = Some r"
  show "\<exists>as q. chain_end (cell m) p as q"
  proof (cases p)
    case None
    then show ?thesis by (intro exI [of _ "[]"] exI [of _ None]) (simp add: chain_end_def)
  next
    case (Some a)
    show ?thesis
    proof (cases "cell m a")
      case None
      with Some show ?thesis by (intro exI [of _ "[]"] exI [of _ p]) (simp add: chain_end_def)
    next
      case (Some n)
      with \<open>p = Some a\<close> eq have "f (next_ptr n) m (out @ print_int32 (data n) @ '' -> '') = Some r"
        by (simp add: mem_simps)
      then obtain as q where "chain_end (cell m) (next_ptr n) as q" by (blast dest: IH)
      with Some \<open>p = Some a\<close> show ?thesis
        by (intro exI [of _ "a # as"] exI [of _ q]) (simp add: chain_end_def)
    qed
  qed
qed

subsection \<open>Cycles\<close>

lemma find_from_cycle:
  assumes ret: "find_from p i w m' = Some r"
    and c: "path (cell m) (Some a) as (Some a)" and v: "v \<notin> set (vals (cell m) as)"
    and start: "p \<in> Some ` set as" "w = v" "m' = m"
  shows False
proof -
  have "p \<in> Some ` set as \<longrightarrow> w = v \<longrightarrow> m' = m \<longrightarrow> False"
  proof (rule find_from.raw_induct [where P = "\<lambda>p i w m' r. p \<in> Some ` set as \<longrightarrow> w = v \<longrightarrow> m' = m \<longrightarrow> False",
        OF _ ret])
    fix f p i w m' r
    assume IH: "\<And>p i w m' r. f p i w m' = Some r \<Longrightarrow> p \<in> Some ` set as \<longrightarrow> w = v \<longrightarrow> m' = m \<longrightarrow> False"
      and eq: "(case p of None \<Rightarrow> Some (Inr None)
                | Some _ \<Rightarrow> (case deref p m' of Inl e \<Rightarrow> Some (Inl e)
                   | Inr n \<Rightarrow> if data n = w then Some (Inr (Some i))
                              else f (next_ptr n) (i + 1) w m')) = Some r"
    show "p \<in> Some ` set as \<longrightarrow> w = v \<longrightarrow> m' = m \<longrightarrow> False"
    proof (intro impI)
      assume p: "p \<in> Some ` set as" and w: "w = v" and m: "m' = m"
      from p obtain b where b: "b \<in> set as" and pb: "p = Some b" by auto
      from path_set_cell [OF c b] obtain n where n: "cell m b = Some n" by blast
      have "data n \<noteq> v" using v b n by (rule vals_notin)
      with eq pb n w m have "f (next_ptr n) (i + 1) v m = Some r" by (simp add: mem_simps)
      moreover have "next_ptr n \<in> Some ` set as" using c b n by (rule path_cycle_next)
      ultimately show False using IH by blast
    qed
  qed
  with start show False by blast
qed

lemma path_from_cycle:
  assumes c: "path h (Some a) as (Some a)"
  shows "p \<in> Some ` set as \<Longrightarrow> path h p bs q \<Longrightarrow> q \<in> Some ` set as"
proof (induction bs arbitrary: p)
  case (Cons b bs)
  then obtain n where p: "p = Some b" and n: "h b = Some n" and rest: "path h (next_ptr n) bs q" by auto
  from Cons.prems(1) p have b: "b \<in> set as" by auto
  have "next_ptr n \<in> Some ` set as" using c b n by (rule path_cycle_next)
  from Cons.IH [OF this rest] show ?case .
qed simp

lemma cycle_no_chain_end:
  assumes c: "path h (Some a) as (Some a)" and ne: "as \<noteq> []"
  shows "\<not> chain_end h (Some a) bs q"
proof
  assume e: "chain_end h (Some a) bs q"
  have "a \<in> set as" using c ne by (cases as) auto
  with c e have "q \<in> Some ` set as" by (auto simp: chain_end_def intro: path_from_cycle)
  then obtain b where qb: "q = Some b" and b: "b \<in> set as" by auto
  from path_set_cell [OF c b] e qb show False by (auto simp: chain_end_def)
qed

lemma destroy_chain_prefix:
  "path (cell m) p as q \<Longrightarrow> distinct as \<Longrightarrow>
   destroy_chain p m = destroy_chain q (foldl (\<lambda>m a. m[a := None]) m as)"
proof (induction as arbitrary: p m)
  case (Cons a as)
  then obtain n where p: "p = Some a" and n: "cell m a = Some n"
    and rest: "path (cell m) (next_ptr n) as q" and a: "a \<notin> set as" by auto
  have alen: "a < length m" using n by (rule cell_Some_less)
  with rest a have "path (cell (m[a := None])) (next_ptr n) as q" by (simp add: mem_simps)
  with Cons.IH Cons.prems(2) have "destroy_chain (next_ptr n) (m[a := None]) =
      destroy_chain q (foldl (\<lambda>m a. m[a := None]) (m[a := None]) as)" by simp
  then show ?case using p n by (subst destroy_chain.simps) (simp add: mem_simps)
qed simp

lemma advance_deref_short:
  "path (cell m) p xs None \<Longrightarrow> length xs \<le> k \<Longrightarrow>
   ebind (advance p k m) (\<lambda>cur. ebind (deref cur m) (f cur)) = Inl Null_deref"
proof (induction xs arbitrary: p k)
  case Nil
  then show ?case by (cases k) (simp_all add: deref_def)
next
  case (Cons a xs)
  then obtain n k' where "p = Some a" "cell m a = Some n" "path (cell m) (next_ptr n) xs None" "k = Suc k'"
    by (cases k) auto
  with Cons.IH [of "next_ptr n" k'] Cons.prems(2) show ?case by (simp add: mem_simps)
qed

lemma advance_deref2_short:
  "path (cell m) p xs None \<Longrightarrow> length xs \<le> Suc k \<Longrightarrow>
   ebind (advance p k m) (\<lambda>cur. ebind (deref cur m) (\<lambda>nc. ebind (deref (next_ptr nc) m) (f cur nc))) =
   Inl Null_deref"
proof (induction xs arbitrary: p k)
  case Nil
  then show ?case by (cases k) (simp_all add: deref_def)
next
  case (Cons a xs)
  then obtain n where p: "p = Some a" and n: "cell m a = Some n" and rest: "path (cell m) (next_ptr n) xs None"
    by auto
  show ?case
  proof (cases k)
    case 0
    with Cons.prems(2) have "xs = []" by simp
    with rest p n 0 show ?thesis by (simp add: mem_simps deref_def)
  next
    case (Suc k')
    with Cons.IH [OF rest, of k'] Cons.prems(2) p n show ?thesis by (simp add: mem_simps)
  qed
qed

subsection \<open>Termination of the list's loops outside the invariant\<close>

text \<open>
  C21. \<open>print_list()\<close>'s loop terminates exactly when following \<open>next\<close> from
  \<open>head\<close> reaches null or a freed node; the counter and \<open>tail\<close> play no part
  (it then ends normally or with a use after free).
\<close>

theorem print_list_terminates:
  "(print_list s \<noteq> None) = (\<exists>as q. chain_end (cell (mem s)) (head s) as q)"
  by (auto simp: print_list_def dest: print_from_returns print_from_chain_end [of _ _ _ _ "[]"])

text \<open>
  C22. On a list whose chain from \<open>head\<close> returns to \<open>head\<close> through allocated
  nodes (a cycle), \<open>find(v)\<close> for a value not on the cycle and \<open>print_list()\<close>
  never return: the acyclicity the invariant provides is what makes them
  terminate.
\<close>

theorem cyclic_find_print_diverge:
  assumes c: "path (cell (mem s)) (head s) as (head s)" and ne: "as \<noteq> []"
    and v: "v \<notin> set (vals (cell (mem s)) as)"
  shows "ll_find v s = None \<and> print_list s = None"
proof -
  from c ne obtain a where h: "head s = Some a" and a: "a \<in> set as" by (cases as) auto
  with c have c': "path (cell (mem s)) (Some a) as (Some a)" by simp
  have "find_from (head s) 0 v (mem s) = None"
  proof (rule ccontr)
    assume "find_from (head s) 0 v (mem s) \<noteq> None"
    then obtain r where "find_from (head s) 0 v (mem s) = Some r" by auto
    from find_from_cycle [OF this c' v] h a show False by auto
  qed
  moreover have "print_from (head s) (mem s) [] = None"
  proof (rule ccontr)
    assume "print_from (head s) (mem s) [] \<noteq> None"
    then obtain r where "print_from (head s) (mem s) [] = Some r" by auto
    from print_from_returns [OF this] cycle_no_chain_end [OF c' ne] h show False by auto
  qed
  ultimately show ?thesis by (simp add: ll_find_def print_list_def)
qed

theorem cyclic_find_print_diverge_witness:
  "path (cell (mem cyclic_10_20)) (head cyclic_10_20) [0, 1] (head cyclic_10_20) \<and> [0, 1] \<noteq> ([] :: addr list) \<and>
   30 \<notin> set (vals (cell (mem cyclic_10_20)) [0, 1]) \<and>
   ll_find 30 cyclic_10_20 = None \<and> print_list cyclic_10_20 = None"
proof -
  have c: "path (cell (mem cyclic_10_20)) (head cyclic_10_20) [0, 1] (head cyclic_10_20)"
    and v: "30 \<notin> set (vals (cell (mem cyclic_10_20)) [0, 1])" by (simp_all add: cell_def)
  from cyclic_find_print_diverge [OF c _ v] c v show ?thesis by simp
qed

text \<open>
  C23. The destructor on any chain of distinct nodes from \<open>head\<close>, well-formed or
  not: it deletes every node of the chain, each once, reading \<open>next\<close> before the
  \<open>delete\<close>; then it returns normally if the chain ended in null, and reads a
  freed node (use after free) if the chain ended in a freed node or looped back
  into itself.
\<close>

theorem destroy_chain_outcome:
  assumes p: "path (cell (mem s)) (head s) as q" and d: "distinct as"
    and q: "q = None \<or> q \<in> Some ` set as \<or> (\<exists>a. q = Some a \<and> cell (mem s) a = None)"
  shows "ll_destroy s =
           (if q = None then Some (Inr (foldl (\<lambda>m a. m[a := None]) (mem s) as))
            else Some (Inl Use_after_free))"
proof -
  have run: "ll_destroy s = destroy_chain q (foldl (\<lambda>m a. m[a := None]) (mem s) as)"
    using destroy_chain_prefix [OF p d] by (simp add: ll_destroy_def)
  have less: "\<forall>b\<in>set as. b < length (mem s)"
    using path_set_cell [OF p] by (blast dest: cell_Some_less)
  show ?thesis
  proof (cases q)
    case None
    with run show ?thesis by (simp add: destroy_chain.simps)
  next
    case (Some a)
    with q have "a \<in> set as \<or> cell (mem s) a = None" by auto
    then have "cell (foldl (\<lambda>m a. m[a := None]) (mem s) as) a = None" using less by (auto simp: cell_clear)
    then have "destroy_chain (Some a) (foldl (\<lambda>m a. m[a := None]) (mem s) as) = Some (Inl Use_after_free)"
      by (subst destroy_chain.simps) (simp add: deref_def)
    with run Some show ?thesis by simp
  qed
qed

theorem destroy_chain_outcome_witness:
  "path (cell (mem list_10_20)) (head list_10_20) [0, 1] None \<and> distinct [0 :: addr, 1] \<and>
   ll_destroy list_10_20 = Some (Inr [None, None]) \<and>
   path (cell (mem cyclic_10_20)) (head cyclic_10_20) [0, 1] (Some 0) \<and> Some 0 \<in> Some ` set [0 :: addr, 1] \<and>
   ll_destroy cyclic_10_20 = Some (Inl Use_after_free)"
proof -
  have p1: "path (cell (mem list_10_20)) (head list_10_20) [0, 1] None"
    and p2: "path (cell (mem cyclic_10_20)) (head cyclic_10_20) [0, 1] (Some 0)" by (simp_all add: cell_def)
  from destroy_chain_outcome [OF p1] destroy_chain_outcome [OF p2] p1 p2 show ?thesis by simp
qed

text \<open>
  C26. A counter that overstates the chain makes the index operations fault:
  if following \<open>next\<close> from \<open>head\<close> reaches null after \<open>n\<close> nodes but
  \<open>num_items\<close> is larger, then for \<open>0 < i < num_items\<close>, \<open>remove(i)\<close> with
  \<open>n \<le> i\<close> and \<open>insert(i, v)\<close> with \<open>n < i\<close> dereference a null pointer.
\<close>

theorem short_chain_faults:
  assumes p: "path (cell (mem s)) (head s) as None"
    and i0: "0 < unat i" and inum: "unat i < unat (num_items s)"
  shows "(length as \<le> unat i \<longrightarrow> ll_remove i s = Inl Null_deref) \<and>
         (length as < unat i \<longrightarrow> ll_insert i v s = Inl Null_deref)"
proof (intro conjI impI)
  have ne: "i \<noteq> 0" and lt: "\<not> num_items s \<le> i" using i0 inum by (auto simp: word_le_unat)
  have dec: "unat (i - 1) = unat i - 1" using i0 by (rule unat_dec)
  {
    assume "length as \<le> unat i"
    with dec i0 have "length as \<le> Suc (unat (i - 1))" by simp
    from advance_deref2_short [OF p this] ne lt show "ll_remove i s = Inl Null_deref"
      by (simp add: ll_remove_def Let_def)
  next
    assume "length as < unat i"
    with dec have len: "length as \<le> unat (i - 1)" by simp
    have "\<forall>b\<in>set as. b < length (mem s)" using path_set_cell [OF p] by (blast dest: cell_Some_less)
    then have "length (mem s) \<notin> set as" by auto
    with p have "path (cell (mem s @ [Some \<lparr>data = v, next_ptr = None\<rparr>])) (head s) as None"
      by (simp add: cell_append)
    from advance_deref_short [OF this len] ne lt show "ll_insert i v s = Inl Null_deref"
      by (simp add: ll_insert_def new_node_def)
  }
qed

theorem short_chain_faults_witness:
  "path (cell (mem miscounted_10_20)) (head miscounted_10_20) [0, 1] None \<and> 0 < unat (3 :: size_t) \<and>
   unat (3 :: size_t) < unat (num_items miscounted_10_20) \<and>
   length [0 :: addr, 1] \<le> unat (3 :: size_t) \<and> ll_remove 3 miscounted_10_20 = Inl Null_deref \<and>
   length [0 :: addr, 1] < unat (3 :: size_t) \<and> ll_insert 3 7 miscounted_10_20 = Inl Null_deref"
proof -
  have p: "path (cell (mem miscounted_10_20)) (head miscounted_10_20) [0, 1] None" by (simp add: cell_def)
  from short_chain_faults [OF p, of 3 7] p show ?thesis by simp
qed

end
