(* ===== verification/ListCalls.thy ===== *)
theory ListCalls
  imports ListIndex
begin

text \<open>
  The public interface of \<open>Linked_List\<close> (src/main.h, the member declarations
  from \<open>push_front\<close> to \<open>size\<close>) as a datatype of calls, one constructor per
  member with its parameters, and \<open>ll_ret\<close> the value a call gives back to its
  caller: nothing (\<open>void\<close>), an \<open>int\<close>, a \<open>bool\<close> or a \<open>size_t\<close>, or, for
  \<open>print_list\<close>, the text it writes. \<open>ll_call_exec\<close> performs one call on the
  object, \<open>ll_calls\<close> a sequence of calls collecting what they return, stopping
  at the first exception. \<open>seq_call\<close> and \<open>seq_calls\<close> are the same interface on
  the abstract sequence, exceptions included: it is the contract of the class
  (spec section 4.1) as one executable definition.
\<close>

datatype ll_ret = Void | Ret_int int32 | Ret_bool bool | Ret_size size_t | Written string

datatype ll_call =
    Call_push_front int32
  | Call_push_back int32
  | Call_pop_front
  | Call_pop_back
  | Call_front
  | Call_back
  | Call_empty
  | Call_insert size_t int32
  | Call_remove size_t
  | Call_find int32
  | Call_print_list
  | Call_size

fun ll_call_exec :: "ll_call \<Rightarrow> ll_state \<Rightarrow> (ll_state \<times> ll_ret) res option" where
  "ll_call_exec (Call_push_front v) s = Some (ebind (push_front v s) (\<lambda>s'. Inr (s', Void)))"
| "ll_call_exec (Call_push_back v) s = Some (ebind (push_back v s) (\<lambda>s'. Inr (s', Void)))"
| "ll_call_exec Call_pop_front s = Some (ebind (pop_front s) (\<lambda>s'. Inr (s', Void)))"
| "ll_call_exec Call_pop_back s = map_option (\<lambda>r. ebind r (\<lambda>s'. Inr (s', Void))) (pop_back s)"
| "ll_call_exec Call_front s = Some (ebind (ll_front s) (\<lambda>v. Inr (s, Ret_int v)))"
| "ll_call_exec Call_back s = Some (ebind (ll_back s) (\<lambda>v. Inr (s, Ret_int v)))"
| "ll_call_exec Call_empty s = Some (Inr (s, Ret_bool (ll_empty s)))"
| "ll_call_exec (Call_insert i v) s = Some (ebind (ll_insert i v s) (\<lambda>s'. Inr (s', Void)))"
| "ll_call_exec (Call_remove i) s = Some (ebind (ll_remove i s) (\<lambda>(b, s'). Inr (s', Ret_bool b)))"
| "ll_call_exec (Call_find v) s = map_option (\<lambda>r. ebind r (\<lambda>i. Inr (s, Ret_size i))) (ll_find v s)"
| "ll_call_exec Call_print_list s = map_option (\<lambda>r. ebind r (\<lambda>t. Inr (s, Written t))) (print_list s)"
| "ll_call_exec Call_size s = Some (Inr (s, Ret_size (ll_size s)))"

fun ll_calls :: "ll_call list \<Rightarrow> ll_state \<Rightarrow> (ll_state \<times> ll_ret list) res option" where
  "ll_calls [] s = Some (Inr (s, []))"
| "ll_calls (c # cs) s =
     rbind (ll_call_exec c s) (\<lambda>(s', r). rbind (ll_calls cs s') (\<lambda>(s'', rs). Some (Inr (s'', r # rs))))"

fun seq_call :: "ll_call \<Rightarrow> int32 list \<Rightarrow> (int32 list \<times> ll_ret) res" where
  "seq_call (Call_push_front v) xs = Inr (v # xs, Void)"
| "seq_call (Call_push_back v) xs = Inr (xs @ [v], Void)"
| "seq_call Call_pop_front xs = Inr (tl xs, Void)"
| "seq_call Call_pop_back xs = Inr (butlast xs, Void)"
| "seq_call Call_front xs = (if xs = [] then Inl (Runtime_error ''List is empty'') else Inr (xs, Ret_int (hd xs)))"
| "seq_call Call_back xs = (if xs = [] then Inl (Runtime_error ''List is empty'') else Inr (xs, Ret_int (last xs)))"
| "seq_call Call_empty xs = Inr (xs, Ret_bool (xs = []))"
| "seq_call (Call_insert i v) xs = Inr (seq_insert (unat i) v xs, Void)"
| "seq_call (Call_remove i) xs = Inr (seq_remove (unat i) xs, Ret_bool (unat i < length xs))"
| "seq_call (Call_find v) xs = Inr (xs, Ret_size (word_of_nat (seq_find v xs)))"
| "seq_call Call_print_list xs = Inr (xs, Written (seq_print xs))"
| "seq_call Call_size xs = Inr (xs, Ret_size (word_of_nat (length xs)))"

fun seq_calls :: "ll_call list \<Rightarrow> int32 list \<Rightarrow> (int32 list \<times> ll_ret list) res" where
  "seq_calls [] xs = Inr (xs, [])"
| "seq_calls (c # cs) xs =
     ebind (seq_call c xs) (\<lambda>(xs', r). ebind (seq_calls cs xs') (\<lambda>(ys, rs). Inr (ys, r # rs)))"

text \<open>
  A concrete outcome and an abstract one agree: the same exception, or a
  well-formed state whose sequence is the abstract one, with the same returned
  values.
\<close>

fun res_repr :: "(ll_state \<times> 'b) res \<Rightarrow> (int32 list \<times> 'b) res \<Rightarrow> bool" where
  "res_repr (Inl e) a = (a = Inl e)"
| "res_repr (Inr (s, x)) a = (\<exists>bs. ll_repr s bs \<and> Inr (vals (cell (mem s)) bs, x) = a)"

subsection \<open>One call\<close>

lemma vals_eq_Nil: "(vals h as = []) = (as = [])"
  by (simp add: vals_def)

lemma num_items_repr: "ll_repr s as \<Longrightarrow> num_items s = word_of_nat (length as)"
proof -
  assume "ll_repr s as"
  then have "unat (num_items s) = length as" by (simp add: ll_repr_def)
  then have "word_of_nat (unat (num_items s)) = (word_of_nat (length as) :: size_t)" by simp
  then show ?thesis by simp
qed

lemma ll_find_repr_word:
  assumes r: "ll_repr s as"
  shows "ll_find v s = Some (Inr (word_of_nat (seq_find v (vals (cell (mem s)) as))))"
proof (cases "v \<in> set (vals (cell (mem s)) as)")
  case False
  then have "seq_find v (vals (cell (mem s)) as) = length as"
    using seq_find_le [of v "vals (cell (mem s)) as"] seq_find_less_iff [of v "vals (cell (mem s)) as"] by simp
  with False show ?thesis using ll_find_repr [OF r] num_items_repr [OF r] by simp
qed (simp add: ll_find_repr [OF r])

lemma ll_call_repr:
  assumes r: "ll_repr s as" and bound: "Suc (length as) < 2 ^ 64"
  shows "\<exists>x. ll_call_exec c s = Some x \<and> res_repr x (seq_call c (vals (cell (mem s)) as))"
proof (cases c)
  case (Call_push_front v)
  with push_front_repr [OF r bound, of v] show ?thesis by (auto simp del: vals_simps)
next
  case (Call_push_back v)
  with push_back_repr [OF r bound, of v] show ?thesis by (auto simp del: vals_simps)
next
  case Call_pop_front
  with pop_front_repr [OF r] show ?thesis by auto
next
  case Call_pop_back
  with pop_back_repr [OF r] show ?thesis by auto
next
  case Call_front
  with r show ?thesis by (auto simp: ll_front_repr vals_eq_Nil)
next
  case Call_back
  with r show ?thesis by (auto simp: ll_back_repr vals_eq_Nil)
next
  case Call_empty
  with r show ?thesis by (auto simp: ll_empty_def ll_repr_def word_eq_0_unat vals_eq_Nil)
next
  case (Call_insert i v)
  with ll_insert_repr [OF r bound, of i v] show ?thesis by auto
next
  case (Call_remove i)
  with ll_remove_repr [OF r, of i] show ?thesis by auto
next
  case (Call_find v)
  with r show ?thesis by (auto simp: ll_find_repr_word)
next
  case Call_print_list
  with r show ?thesis by (auto simp: print_list_repr)
next
  case Call_size
  with r show ?thesis by (auto simp: ll_size_def num_items_repr)
qed


lemma seq_call_length: "seq_call c xs = Inr (ys, r) \<Longrightarrow> length ys \<le> Suc (length xs)"
  by (cases c) (auto simp: seq_remove_def split: if_splits)

lemma ll_calls_repr:
  "ll_repr s as \<Longrightarrow> length as + length cs < 2 ^ 64 \<Longrightarrow>
   \<exists>x. ll_calls cs s = Some x \<and> res_repr x (seq_calls cs (vals (cell (mem s)) as))"
proof (induction cs arbitrary: s as)
  case Nil
  then show ?case by auto
next
  case (Cons c cs)
  from Cons.prems have "Suc (length as) < 2 ^ 64" by simp
  from ll_call_repr [OF Cons.prems(1) this, of c] obtain x
    where e: "ll_call_exec c s = Some x" and rx: "res_repr x (seq_call c (vals (cell (mem s)) as))" by blast
  show ?case
  proof (cases x)
    case (Inl err)
    with e rx show ?thesis by simp
  next
    case (Inr sr)
    then obtain s1 r where x: "x = Inr (s1, r)" by (cases sr) auto
    with rx obtain bs where r1: "ll_repr s1 bs"
      and a1: "seq_call c (vals (cell (mem s)) as) = Inr (vals (cell (mem s1)) bs, r)" by auto
    from seq_call_length [OF a1] Cons.prems(2) have "length bs + length cs < 2 ^ 64" by simp
    from Cons.IH [OF r1 this] obtain y
      where y: "ll_calls cs s1 = Some y" and ry: "res_repr y (seq_calls cs (vals (cell (mem s1)) bs))" by blast
    show ?thesis
    proof (cases y)
      case (Inl err)
      with e x a1 y ry show ?thesis by simp
    next
      case (Inr tr)
      then obtain s2 rs where y2: "y = Inr (s2, rs)" by (cases tr) auto
      with ry obtain bs2 where r2: "ll_repr s2 bs2"
        and a2: "Inr (vals (cell (mem s2)) bs2, rs) = seq_calls cs (vals (cell (mem s1)) bs)" by auto
      from e x a1 y y2 r2 a2 [symmetric] show ?thesis by auto
    qed
  qed
qed

lemma res_repr_abs:
  "res_repr x a \<Longrightarrow>
   map_sum id (\<lambda>(s', rs). (ll_list s', rs)) x = a \<and> (\<forall>s' rs. x = Inr (s', rs) \<longrightarrow> ll_inv s')"
  by (cases x) (auto dest: ll_repr_inv_list)

subsection \<open>The class implements its contract\<close>

text \<open>
  C24. Trace refinement of the whole public interface: for any sequence of
  calls of \<open>Linked_List\<close>'s members on a well-formed list, the object returns
  the same values and throws the same exception, at the same call, as the
  abstract sequence of spec section 4.1, and every state it passes through is
  well-formed (while the counter cannot overflow).
\<close>

theorem calls_refine:
  assumes "ll_inv s" and "length (ll_list s) + length cs < 2 ^ 64"
  shows "\<exists>x. ll_calls cs s = Some x \<and> map_sum id (\<lambda>(s', rs). (ll_list s', rs)) x = seq_calls cs (ll_list s) \<and>
             (\<forall>s' rs. x = Inr (s', rs) \<longrightarrow> ll_inv s')"
proof -
  from assms(1) obtain as where r: "ll_repr s as" and l: "ll_list s = vals (cell (mem s)) as"
    and n: "length (ll_list s) = length as" by (blast dest: ll_inv_repr)
  from ll_calls_repr [OF r, of cs] assms(2) n obtain x where "ll_calls cs s = Some x"
    and "res_repr x (seq_calls cs (vals (cell (mem s)) as))" by auto
  with l show ?thesis by (auto dest: res_repr_abs)
qed

theorem calls_refine_witness:
  "ll_inv list_10_20 \<and>
   length (ll_list list_10_20) +
     length [Call_front, Call_push_back 30, Call_find 20, Call_remove 0, Call_print_list, Call_pop_back, Call_size] < 2 ^ 64 \<and>
   (\<exists>x. ll_calls [Call_front, Call_push_back 30, Call_find 20, Call_remove 0, Call_print_list, Call_pop_back, Call_size]
          list_10_20 = Some x \<and>
        map_sum id (\<lambda>(s', rs). (ll_list s', rs)) x =
          Inr ([20], [Ret_int 10, Void, Ret_size 1, Ret_bool True, Written ''20 -> 30 -> NULL\<newline>'', Void, Ret_size 1]) \<and>
        (\<forall>s' rs. x = Inr (s', rs) \<longrightarrow> ll_inv s')) \<and>
   length (ll_list list_10_20) + length [Call_pop_front, Call_pop_front, Call_back] < 2 ^ 64 \<and>
   (\<exists>x. ll_calls [Call_pop_front, Call_pop_front, Call_back] list_10_20 = Some x \<and>
        map_sum id (\<lambda>(s', rs). (ll_list s', rs)) x = Inl (Runtime_error ''List is empty'') \<and>
        (\<forall>s' rs. x = Inr (s', rs) \<longrightarrow> ll_inv s'))"
  using calls_refine [OF list_10_20_inv, of "[Call_front, Call_push_back 30, Call_find 20, Call_remove 0, Call_print_list, Call_pop_back, Call_size]"]
    calls_refine [OF list_10_20_inv, of "[Call_pop_front, Call_pop_front, Call_back]"]
    list_10_20_inv list_10_20_list
  by (simp add: seq_remove_def seq_print_def print_int32_def int_dec_def nat_dec.simps digit_char_def)

end
