(* ===== verification/DoubleDiv.thy ===== *)
theory DoubleDiv
  imports Prelude Complex_Main
begin

text \<open>
  The one floating-point operation of the program: \<open>mainStack::average\<close>'s
  \<open>static_cast<double>(sum) / stack.size()\<close> (src/main.cpp line 207), an IEEE 754
  binary64 division in round-to-nearest-ties-to-even mode. Its operands are an
  \<open>int\<close>, which a double holds exactly, and a \<open>size_t\<close>, which the usual
  arithmetic conversions turn into a double first (rounded when it exceeds
  \<open>2 ^ 53\<close>). \<open>dbl\<close> is the value of a double: finite, NaN or an infinity (the sign
  of a zero is not kept). \<open>round_quot a b\<close> is the positive quotient \<open>a / b\<close>
  rounded to 53 significant bits: \<open>binade a b\<close> is the exponent \<open>e\<close> with
  \<open>2 ^ e \<le> a / b < 2 ^ (e + 1)\<close>, and the quotient is rounded to the nearest
  multiple of \<open>2 ^ (e - 52)\<close>, ties to an even multiple. The exponent range of
  binary64 is not modelled: the quotients that arise (an \<open>int\<close> over a count
  below \<open>2 ^ 64\<close>) lie far inside it.
\<close>

datatype dbl = Dbl_fin real | Dbl_nan | Dbl_inf bool

text \<open>Number of binary digits of \<open>n\<close>.\<close>

fun nbits :: "nat \<Rightarrow> nat" where
  "nbits n = (if n = 0 then 0 else Suc (nbits (n div 2)))"

declare nbits.simps [simp del]

text \<open>\<open>a / b\<close> rounded to the nearest integer, ties to even.\<close>

definition rdiv_even :: "nat \<Rightarrow> nat \<Rightarrow> nat" where
  "rdiv_even a b =
     (let d = a div b; r = a mod b in
      if 2 * r < b then d else if b < 2 * r then d + 1 else if even d then d else d + 1)"

definition binade :: "nat \<Rightarrow> nat \<Rightarrow> int" where
  "binade a b =
     (let d = int (nbits a) - int (nbits b) in
      if b * 2 ^ nat d \<le> a * 2 ^ nat (- d) then d else d - 1)"

definition round_quot :: "nat \<Rightarrow> nat \<Rightarrow> real" where
  "round_quot a b =
     (let k = 52 - binade a b in
      if 0 \<le> k then real (rdiv_even (a * 2 ^ nat k) b) / 2 ^ nat k
      else real (rdiv_even a (b * 2 ^ nat (- k)) * 2 ^ nat (- k)))"

text \<open>The conversion of a \<open>size_t\<close> to double; its value is an integer.\<close>

definition nat_to_double :: "nat \<Rightarrow> nat" where
  "nat_to_double n =
     (if n = 0 then 0
      else (let k = 52 - binade n 1 in
            if 0 \<le> k then n else rdiv_even n (2 ^ nat (- k)) * 2 ^ nat (- k)))"

text \<open>\<open>p / q\<close> for doubles holding the integers \<open>p\<close> and \<open>q \<ge> 0\<close>.\<close>

definition ddiv :: "int \<Rightarrow> nat \<Rightarrow> dbl" where
  "ddiv p q =
     (if q = 0 then (if p = 0 then Dbl_nan else Dbl_inf (0 < p))
      else if p = 0 then Dbl_fin 0
      else Dbl_fin (sgn (real_of_int p) * round_quot (nat \<bar>p\<bar>) q))"

subsection \<open>Rounding error\<close>

lemma rdiv_even_err: "0 < b \<Longrightarrow> \<bar>real (rdiv_even a b) - real a / real b\<bar> \<le> 1 / 2"
proof -
  assume b: "0 < b"
  define d r where "d = a div b" and "r = a mod b"
  have a: "real a = real d * real b + real r" using b by (simp add: d_def r_def flip: of_nat_mult of_nat_add)
  have rb: "r < b" using b by (simp add: r_def)
  have q: "real a / real b = real d + real r / real b" using b by (simp add: a field_simps)
  consider "2 * r < b" | "b < 2 * r" | "2 * r = b" by arith
  then show ?thesis
  proof cases
    case 1
    then have "real r / real b \<le> 1 / 2" using b by (simp add: field_simps)
    with 1 q show ?thesis by (simp add: rdiv_even_def Let_def d_def r_def flip: d_def r_def)
  next
    case 2
    then have "1 - real r / real b \<le> 1 / 2" and "real r / real b \<le> 1"
      using b rb by (simp_all add: field_simps)
    with 2 q show ?thesis by (simp add: rdiv_even_def Let_def flip: d_def r_def)
  next
    case 3
    then have "real r / real b = 1 / 2" using b by (simp add: field_simps flip: of_nat_mult)
    with 3 q show ?thesis by (simp add: rdiv_even_def Let_def flip: d_def r_def)
  qed
qed

lemma nbits_bounds: "0 < n \<Longrightarrow> 2 ^ (nbits n - 1) \<le> n \<and> n < 2 ^ nbits n"
proof (induction n rule: nbits.induct)
  case (1 n)
  show ?case
  proof (cases "n = 1")
    case True
    then show ?thesis by (simp add: nbits.simps)
  next
    case False
    with "1.prems" have h: "0 < n div 2" by simp
    with "1.IH" "1.prems" have ih: "2 ^ (nbits (n div 2) - 1) \<le> n div 2 \<and> n div 2 < 2 ^ nbits (n div 2)"
      by simp
    define k where "k = nbits (n div 2)"
    from h have k0: "0 < k" by (simp add: k_def nbits.simps)
    have nb: "nbits n = Suc k" using "1.prems" by (simp add: k_def nbits.simps [of n])
    have p: "(2::nat) ^ k = 2 * 2 ^ (k - 1)" using k0 by (simp flip: power_Suc)
    have lo: "2 ^ (k - 1) \<le> n div 2" and hi: "n div 2 < 2 ^ k" using ih by (simp_all add: k_def)
    have "2 ^ k \<le> n" using lo p by linarith
    moreover have "n < 2 ^ Suc k" using hi by simp
    ultimately show ?thesis by (simp add: nb)
  qed
qed

lemma pow2_int: "(2::real) powr real_of_int e = (if 0 \<le> e then 2 ^ nat e else 1 / 2 ^ nat (- e))"
  by (simp add: powr_realpow [symmetric] powr_minus_divide flip: powr_realpow)

lemma binade_le:
  assumes a: "0 < a" and b: "0 < b"
  shows "2 powr real_of_int (binade a b) \<le> real a / real b"
proof -
  define d where "d = int (nbits a) - int (nbits b)"
  show ?thesis
  proof (cases "b * 2 ^ nat d \<le> a * 2 ^ nat (- d)")
    case True
    then have e: "binade a b = d" by (simp add: binade_def Let_def d_def)
    show ?thesis
    proof (cases "0 \<le> d")
      case True
      with \<open>b * 2 ^ nat d \<le> a * 2 ^ nat (- d)\<close> have "b * 2 ^ nat d \<le> a" by simp
      then have "real (b * 2 ^ nat d) \<le> real a" by (simp only: of_nat_le_iff)
      then have "real b * 2 ^ nat d \<le> real a" by simp
      with True b show ?thesis by (simp add: e pow2_int field_simps)
    next
      case False
      with \<open>b * 2 ^ nat d \<le> a * 2 ^ nat (- d)\<close> have "b \<le> a * 2 ^ nat (- d)" by simp
      then have "real b \<le> real (a * 2 ^ nat (- d))" by (simp only: of_nat_le_iff)
      then have "real b \<le> real a * 2 ^ nat (- d)" by simp
      with False b show ?thesis by (simp add: e pow2_int field_simps)
    qed
  next
    case False
    then have e0: "binade a b = d - 1" by (simp add: binade_def Let_def d_def)
    have "0 < nbits a" using a by (simp add: nbits.simps [of a])
    then have e: "binade a b = int (nbits a - 1) - int (nbits b)" by (simp add: e0 d_def)
    have la: "2 ^ (nbits a - 1) \<le> real a" using nbits_bounds [OF a] by (simp flip: of_nat_power)
    have lb: "real b \<le> 2 ^ nbits b" using nbits_bounds [OF b] by (simp flip: of_nat_power)
    have "2 powr real_of_int (binade a b) = 2 ^ (nbits a - 1) / 2 ^ nbits b"
      by (simp add: e powr_diff powr_realpow)
    also have "\<dots> \<le> real a / 2 ^ nbits b" using la by (simp add: divide_right_mono)
    also have "\<dots> \<le> real a / real b" using lb b by (simp add: frac_le)
    finally show ?thesis .
  qed
qed

lemma round_quot_err:
  assumes a: "0 < a" and b: "0 < b"
  shows "\<bar>round_quot a b - real a / real b\<bar> \<le> (real a / real b) / 2 ^ 53"
proof -
  define e where "e = binade a b"
  define k where "k = 52 - e"
  have le: "2 powr real_of_int e \<le> real a / real b" using binade_le [OF a b] by (simp add: e_def)
  have bound: "2 powr real_of_int (e - 53) \<le> (real a / real b) / 2 ^ 53"
    using le by (simp add: powr_diff powr_realpow divide_right_mono)
  have "\<bar>round_quot a b - real a / real b\<bar> \<le> 2 powr real_of_int (e - 53)"
  proof (cases "0 \<le> k")
    case True
    define M where "M = rdiv_even (a * 2 ^ nat k) b"
    have pk: "(2::real) ^ nat k = 2 powr real_of_int k" using True by (simp add: pow2_int)
    have r: "round_quot a b = real M / 2 ^ nat k" using True by (simp add: round_quot_def Let_def M_def k_def e_def)
    have "\<bar>real M - real (a * 2 ^ nat k) / real b\<bar> \<le> 1 / 2"
      using rdiv_even_err [OF b, of "a * 2 ^ nat k"] by (simp only: M_def)
    then have "\<bar>real M - real a * 2 ^ nat k / real b\<bar> \<le> 1 / 2" by simp
    then have "\<bar>real M / 2 ^ nat k - real a / real b\<bar> \<le> 1 / 2 / 2 ^ nat k"
      by (simp add: abs_divide field_simps flip: diff_divide_distrib)
    also have "1 / 2 / 2 ^ nat k = (2::real) powr real_of_int (e - 53)"
    proof -
      have "(1::real) / 2 / 2 ^ nat k = 1 / 2 powr (1 + real_of_int k)" by (simp add: pk powr_add)
      also have "\<dots> = 2 powr (- (1 + real_of_int k))" by (rule powr_minus_divide [symmetric])
      also have "- (1 + real_of_int k) = real_of_int (e - 53)" by (simp add: k_def)
      finally show ?thesis .
    qed
    finally show ?thesis by (simp add: r)
  next
    case False
    define j where "j = nat (- k)"
    define M where "M = rdiv_even a (b * 2 ^ j)"
    have pj: "(2::real) ^ j = 2 powr real_of_int (e - 52)" using pow2_int [of "e - 52"] False by (simp add: j_def k_def)
    have r: "round_quot a b = real M * 2 ^ j" using False by (simp add: round_quot_def Let_def M_def j_def k_def e_def)
    have "\<bar>real M - real a / real (b * 2 ^ j)\<bar> \<le> 1 / 2" using rdiv_even_err [of "b * 2 ^ j" a] b by (simp add: M_def)
    then have "\<bar>real M - real a / (real b * 2 ^ j)\<bar> \<le> 1 / 2" by simp
    moreover have "real M * 2 ^ j - real a / real b = 2 ^ j * (real M - real a / (real b * 2 ^ j))"
      using b by (simp add: field_simps)
    ultimately have "\<bar>real M * 2 ^ j - real a / real b\<bar> \<le> 2 ^ j * (1 / 2)"
      by (simp only: abs_mult power_abs abs_numeral) (rule mult_left_mono, simp_all)
    then have "\<bar>real M * 2 ^ j - real a / real b\<bar> \<le> 2 ^ j / 2" by simp
    also have "(2::real) ^ j / 2 = 2 powr real_of_int (e - 53)"
      by (simp add: pj powr_diff field_simps)
    finally show ?thesis by (simp add: r)
  qed
  with bound show ?thesis by linarith
qed

lemma nat_to_double_small: "n < 2 ^ 53 \<Longrightarrow> nat_to_double n = n"
proof (cases "n = 0")
  case False
  assume n: "n < 2 ^ 53"
  have "2 powr real_of_int (binade n 1) \<le> real n" using binade_le [of n 1] False by simp
  also have "real n < real ((2::nat) ^ 53)" using n by (simp only: of_nat_less_iff)
  also have "real ((2::nat) ^ 53) = 2 powr real_of_int 53" by (simp add: powr_realpow)
  finally have "binade n 1 < 53" by (simp only: powr_less_cancel_iff one_less_numeral_iff semiring_norm(76) of_int_less_iff)
  with False show ?thesis by (simp add: nat_to_double_def Let_def)
qed (simp add: nat_to_double_def)

lemma ddiv_err:
  "0 < q \<Longrightarrow> \<exists>d. ddiv p q = Dbl_fin d \<and> \<bar>d - real_of_int p / real q\<bar> \<le> \<bar>real_of_int p / real q\<bar> / 2 ^ 53"
proof (cases "p = 0")
  case False
  assume q: "0 < q"
  have ap: "0 < nat \<bar>p\<bar>" using False by simp
  have err: "\<bar>round_quot (nat \<bar>p\<bar>) q - real (nat \<bar>p\<bar>) / real q\<bar> \<le> (real (nat \<bar>p\<bar>) / real q) / 2 ^ 53"
    by (rule round_quot_err [OF ap q])
  have "real (nat \<bar>p\<bar>) = \<bar>real_of_int p\<bar>" by simp
  then have "\<bar>sgn (real_of_int p) * round_quot (nat \<bar>p\<bar>) q - real_of_int p / real q\<bar> =
             \<bar>round_quot (nat \<bar>p\<bar>) q - real (nat \<bar>p\<bar>) / real q\<bar>"
    using False by (cases "0 < p") (simp_all add: abs_minus_commute)
  with err q False show ?thesis by (simp add: ddiv_def abs_divide)
qed (simp add: ddiv_def)

end
