(* ===== verification/Stack.thy ===== *)
theory Stack
  imports Prelude DoubleDiv
begin

text \<open>
  The class \<open>mainStack\<close> of src/main.h (lines 77--99) and its methods in
  src/main.cpp (lines 176--220). The object is its \<open>std::vector<int>\<close>, a
  list whose last element is the top. \<open>pop\<close> on an empty stack writes a
  diagnostic instead of throwing, so it returns the text it writes to
  \<open>std::cout\<close>; \<open>top\<close> on an empty stack throws. \<open>average\<close> sums the elements
  with \<open>std::accumulate\<close> started at the \<open>int\<close> 0, so the running sum is an
  \<open>int\<close> and each addition can overflow: signed overflow is undefined
  behaviour in C++ and the error \<open>Signed_overflow\<close> here. The quotient
  \<open>static_cast<double>(sum) / stack.size()\<close> is the IEEE division \<open>ddiv\<close> of
  theory \<open>DoubleDiv\<close>: the count converted to double, the quotient rounded to
  nearest, and \<open>0.0 / 0.0\<close> a NaN, which is why the empty-stack guard matters.
  \<open>display\<close>'s loop over indices is a \<^theory_text>\<open>function\<close> with a measure.
\<close>

record mainStack =
  stack :: "int32 list"

definition stack_push :: "int32 \<Rightarrow> mainStack \<Rightarrow> mainStack" where
  "stack_push value st = st\<lparr>stack := stack st @ [value]\<rparr>"

definition stack_pop :: "mainStack \<Rightarrow> mainStack \<times> string" where
  "stack_pop st =
     (if stack st \<noteq> [] then (st\<lparr>stack := butlast (stack st)\<rparr>, [])
      else (st, ''Stack is empty. Cannot pop.\<newline>''))"

definition stack_empty :: "mainStack \<Rightarrow> bool" where
  "stack_empty st = (stack st = [])"

definition stack_top :: "mainStack \<Rightarrow> int32 res" where
  "stack_top st =
     (if stack st \<noteq> [] then Inr (last (stack st))
      else Inl (Runtime_error ''Stack is empty. No top element.''))"

text \<open>
  \<open>std::accumulate(first, last, init)\<close>: \<open>init = init + *first\<close> for each
  element, an \<open>int\<close> addition.
\<close>

fun accumulate :: "int32 list \<Rightarrow> int32 \<Rightarrow> int32 res" where
  "accumulate [] acc = Inr acc"
| "accumulate (x # xs) acc =
     (if sint acc + sint x < - (2 ^ 31) \<or> 2 ^ 31 \<le> sint acc + sint x then Inl Signed_overflow
      else accumulate xs (acc + x))"

definition average :: "mainStack \<Rightarrow> dbl res" where
  "average st =
     (if stack st = [] then Inr (Dbl_fin 0)
      else ebind (accumulate (stack st) 0) (\<lambda>sum.
        Inr (ddiv (sint sum) (nat_to_double (length (stack st))))))"

text \<open>\<open>for (i = 0; i < stack.size(); ++i) { cout << stack[i]; if (i < stack.size() - 1) cout << " -> "; }\<close>\<close>

function display_loop :: "int32 list \<Rightarrow> nat \<Rightarrow> string" where
  "display_loop xs i =
     (if i < length xs
      then print_int32 (xs ! i) @ (if i < length xs - 1 then '' -> '' else []) @ display_loop xs (Suc i)
      else [])"
  by pat_completeness auto
termination
  by (relation "measure (\<lambda>(xs, i). length xs - i)") auto

declare display_loop.simps [simp del]

definition display :: "mainStack \<Rightarrow> string" where
  "display st = ''Stack (bottom to top): '' @ display_loop (stack st) 0 @ '' -> NULL\<newline>''"

subsection \<open>Reference definitions\<close>

text \<open>
  The prefix sums of the elements, started at \<open>a\<close>, all lie in the range of
  \<open>int\<close>: the condition under which \<open>std::accumulate\<close> has defined behaviour.
\<close>

fun sums_fit :: "int \<Rightarrow> int32 list \<Rightarrow> bool" where
  "sums_fit a [] = True"
| "sums_fit a (x # xs) = (- (2 ^ 31) \<le> a + sint x \<and> a + sint x < 2 ^ 31 \<and> sums_fit (a + sint x) xs)"

text \<open>The texts \<open>xs\<close> joined with the separator \<open>sep\<close> between neighbours.\<close>

fun sep_join :: "string \<Rightarrow> string list \<Rightarrow> string" where
  "sep_join sep [] = []"
| "sep_join sep [x] = x"
| "sep_join sep (x # y # xs) = x @ sep @ sep_join sep (y # xs)"

definition mean :: "int32 list \<Rightarrow> real" where
  "mean xs = real_of_int (sum_list (map sint xs)) / real (length xs)"

subsection \<open>Summation and rendering\<close>

lemma sint_word_of_int_small:
  "- (2 ^ 31) \<le> a \<Longrightarrow> a < 2 ^ 31 \<Longrightarrow> sint (word_of_int a :: int32) = a"
  by (simp add: sint_sbintrunc' signed_take_bit_int_eq_self)

lemma word_of_int_add_sint: "(word_of_int a :: 'a::len word) + x = word_of_int (a + sint x)"
  by (simp only: of_int_add of_int_sint scast_id)

lemma accumulate_sums:
  "- (2 ^ 31) \<le> a \<Longrightarrow> a < 2 ^ 31 \<Longrightarrow>
   accumulate xs (word_of_int a) =
     (if sums_fit a xs then Inr (word_of_int (a + sum_list (map sint xs))) else Inl Signed_overflow)"
proof (induction xs arbitrary: a)
  case Nil
  then show ?case by simp
next
  case (Cons x xs)
  have sa: "sint (word_of_int a :: int32) = a" using Cons.prems by (rule sint_word_of_int_small)
  show ?case
  proof (cases "- (2 ^ 31) \<le> a + sint x \<and> a + sint x < 2 ^ 31")
    case True
    then have "accumulate xs (word_of_int (a + sint x)) =
      (if sums_fit (a + sint x) xs then Inr (word_of_int (a + sint x + sum_list (map sint xs)))
       else Inl Signed_overflow)" using Cons.IH by blast
    then show ?thesis using True sa by (simp only: accumulate.simps word_of_int_add_sint sums_fit.simps
      list.map sum_list.Cons add.assoc if_True not_less not_le de_Morgan_disj) simp
  next
    case False
    then show ?thesis using sa by (cases "a + sint x < - (2 ^ 31)") auto
  qed
qed

lemma sums_fit_total:
  "sums_fit a xs \<Longrightarrow> - (2 ^ 31) \<le> a \<Longrightarrow> a < 2 ^ 31 \<Longrightarrow>
   - (2 ^ 31) \<le> a + sum_list (map sint xs) \<and> a + sum_list (map sint xs) < 2 ^ 31"
proof (induction xs arbitrary: a)
  case (Cons x xs)
  then have "- (2 ^ 31) \<le> a + sint x + sum_list (map sint xs) \<and> a + sint x + sum_list (map sint xs) < 2 ^ 31"
    by simp
  then show ?case by (simp add: add.assoc)
qed simp

lemma display_loop_sep_join:
  "display_loop xs i = sep_join '' -> '' (map print_int32 (drop i xs))"
proof (induction xs i rule: display_loop.induct)
  case (1 xs i)
  show ?case
  proof (cases "i < length xs")
    case True
    then have d: "drop i xs = xs ! i # drop (Suc i) xs" by (simp add: Cons_nth_drop_Suc)
    show ?thesis
    proof (cases "i < length xs - 1")
      case True
      then obtain y ys where "drop (Suc i) xs = y # ys" by (cases "drop (Suc i) xs") auto
      then show ?thesis using "1.IH" \<open>i < length xs\<close> True d
        by (subst display_loop.simps) simp
    next
      case False
      then have "drop (Suc i) xs = []" and "\<not> Suc i < length xs" using \<open>i < length xs\<close> by simp_all
      then show ?thesis using \<open>i < length xs\<close> False d
        by (subst display_loop.simps) (simp add: display_loop.simps [of xs "Suc i"])
    qed
  next
    case False
    then show ?thesis by (subst display_loop.simps) simp
  qed
qed

lemma average_cases:
  "average st =
     (if stack st = [] then Inr (Dbl_fin 0)
      else if sums_fit 0 (stack st)
      then Inr (ddiv (sum_list (map sint (stack st))) (nat_to_double (length (stack st))))
      else Inl Signed_overflow)"
proof -
  have acc: "accumulate (stack st) 0 =
     (if sums_fit 0 (stack st) then Inr (word_of_int (sum_list (map sint (stack st)))) else Inl Signed_overflow)"
    using accumulate_sums [of 0 "stack st"] by simp
  show ?thesis
  proof (cases "sums_fit 0 (stack st)")
    case True
    then have "sint (word_of_int (sum_list (map sint (stack st))) :: int32) = sum_list (map sint (stack st))"
      using sums_fit_total [OF True] by (simp add: sint_word_of_int_small)
    with True acc show ?thesis by (simp add: average_def)
  next
    case False
    with acc show ?thesis by (simp add: average_def)
  qed
qed

lemma average_mean:
  assumes "stack st \<noteq> []" and "sums_fit 0 (stack st)" and "length (stack st) < 2 ^ 53"
  shows "\<exists>d. average st = Inr (Dbl_fin d) \<and> \<bar>d - mean (stack st)\<bar> \<le> \<bar>mean (stack st)\<bar> / 2 ^ 53"
proof -
  have q: "0 < length (stack st)" using assms(1) by simp
  from ddiv_err [OF q, of "sum_list (map sint (stack st))"] show ?thesis
    using assms by (simp add: average_cases nat_to_double_small mean_def del: of_int_sint)
qed

subsection \<open>Properties of the stack\<close>

text \<open>
  C12. Last in, first out: after \<open>push(v)\<close>, \<open>top()\<close> returns \<open>v\<close>, and
  \<open>pop()\<close> restores the stack as it was before, silently.
\<close>

theorem stack_lifo:
  "stack_top (stack_push v st) = Inr v \<and> stack_pop (stack_push v st) = (st, [])"
  by (simp add: stack_top_def stack_pop_def stack_push_def)

text \<open>
  C13. \<open>average()\<close> returns \<open>0.0\<close> on an empty stack (not the NaN of
  \<open>0.0 / 0.0\<close>); when a running sum of \<open>std::accumulate\<close> leaves \<open>int\<close> the
  summation is undefined behaviour; otherwise it returns a finite double within
  relative error \<open>2 ^ -53\<close> (half an ulp) of the arithmetic mean, for stacks of
  fewer than \<open>2 ^ 53\<close> elements (whose size converts to double exactly).
\<close>

theorem average_spec:
  assumes "length (stack st) < 2 ^ 53"
  shows "(stack st = [] \<longrightarrow> average st = Inr (Dbl_fin 0)) \<and>
         (stack st \<noteq> [] \<and> \<not> sums_fit 0 (stack st) \<longrightarrow> average st = Inl Signed_overflow) \<and>
         (stack st \<noteq> [] \<and> sums_fit 0 (stack st) \<longrightarrow>
            (\<exists>d. average st = Inr (Dbl_fin d) \<and> \<bar>d - mean (stack st)\<bar> \<le> \<bar>mean (stack st)\<bar> / 2 ^ 53))"
  using assms average_mean [of st] by (simp add: average_cases)

theorem average_spec_witness:
  "length (stack \<lparr>stack = []\<rparr>) < 2 ^ 53 \<and> average \<lparr>stack = []\<rparr> = Inr (Dbl_fin 0) \<and>
   length (stack \<lparr>stack = [2147483647, 1]\<rparr>) < 2 ^ 53 \<and> \<not> sums_fit 0 [2147483647, 1] \<and>
   average \<lparr>stack = [2147483647, 1]\<rparr> = Inl Signed_overflow \<and>
   length (stack \<lparr>stack = [10, 20]\<rparr>) < 2 ^ 53 \<and> sums_fit 0 [10, 20] \<and>
   (\<exists>d. average \<lparr>stack = [10, 20]\<rparr> = Inr (Dbl_fin d) \<and> \<bar>d - mean [10, 20]\<bar> \<le> \<bar>mean [10, 20]\<bar> / 2 ^ 53)"
  using average_spec [of "\<lparr>stack = []\<rparr>"] average_spec [of "\<lparr>stack = [2147483647, 1]\<rparr>"]
    average_spec [of "\<lparr>stack = [10, 20]\<rparr>"]
  by simp

text \<open>
  C14. The index loop of \<open>display()\<close> writes the elements from bottom to top
  separated by \<open>" -> "\<close>: it equals the reference rendering by \<open>sep_join\<close>.
\<close>

theorem display_spec:
  "display st = ''Stack (bottom to top): '' @ sep_join '' -> '' (map print_int32 (stack st)) @ '' -> NULL\<newline>''"
  by (simp add: display_def display_loop_sep_join)

end
