(* ===== verification/StackCalls.thy ===== *)
theory StackCalls
  imports Stack
begin

text \<open>
  The public interface of \<open>mainStack\<close> (src/main.h, the member declarations
  \<open>push\<close> to \<open>display\<close>) as a datatype of calls, and \<open>stack_ret\<close> what a call
  gives back: nothing, a \<open>bool\<close>, an \<open>int\<close>, a \<open>double\<close>, or the text it writes
  to \<open>std::cout\<close> (\<open>pop\<close> writes its diagnostic, \<open>display\<close> the rendering).
  \<open>stack_calls\<close> runs a sequence of calls, stopping at the first exception or
  undefined behaviour. \<open>spec_stack_call\<close> is the contract of spec section 4.2 on
  the sequence of elements: \<open>average\<close> is \<open>0.0\<close> for an empty stack and otherwise
  the full sum, taken exactly, divided by the count in floating point (\<open>ddiv\<close>),
  with no bound on the sum; \<open>display\<close> is the reference rendering by \<open>sep_join\<close>.
\<close>

datatype stack_ret = SVoid | SBool bool | SInt int32 | SDouble dbl | SWritten string

datatype stack_call =
    Call_push int32
  | Call_pop
  | Call_empty
  | Call_top
  | Call_average
  | Call_display

fun stack_call_exec :: "stack_call \<Rightarrow> mainStack \<Rightarrow> (mainStack \<times> stack_ret) res" where
  "stack_call_exec (Call_push v) st = Inr (stack_push v st, SVoid)"
| "stack_call_exec Call_pop st = (case stack_pop st of (st', out) \<Rightarrow> Inr (st', SWritten out))"
| "stack_call_exec Call_empty st = Inr (st, SBool (stack_empty st))"
| "stack_call_exec Call_top st = ebind (stack_top st) (\<lambda>v. Inr (st, SInt v))"
| "stack_call_exec Call_average st = ebind (average st) (\<lambda>a. Inr (st, SDouble a))"
| "stack_call_exec Call_display st = Inr (st, SWritten (display st))"

fun stack_calls :: "stack_call list \<Rightarrow> mainStack \<Rightarrow> (mainStack \<times> stack_ret list) res" where
  "stack_calls [] st = Inr (st, [])"
| "stack_calls (c # cs) st =
     ebind (stack_call_exec c st) (\<lambda>(st', r). ebind (stack_calls cs st') (\<lambda>(st'', rs). Inr (st'', r # rs)))"

fun spec_stack_call :: "stack_call \<Rightarrow> int32 list \<Rightarrow> (int32 list \<times> stack_ret) res" where
  "spec_stack_call (Call_push v) xs = Inr (xs @ [v], SVoid)"
| "spec_stack_call Call_pop xs =
     (if xs = [] then Inr (xs, SWritten ''Stack is empty. Cannot pop.\<newline>'') else Inr (butlast xs, SWritten []))"
| "spec_stack_call Call_empty xs = Inr (xs, SBool (xs = []))"
| "spec_stack_call Call_top xs =
     (if xs = [] then Inl (Runtime_error ''Stack is empty. No top element.'') else Inr (xs, SInt (last xs)))"
| "spec_stack_call Call_average xs =
     Inr (xs, SDouble (if xs = [] then Dbl_fin 0 else ddiv (sum_list (map sint xs)) (nat_to_double (length xs))))"
| "spec_stack_call Call_display xs =
     Inr (xs, SWritten (''Stack (bottom to top): '' @ sep_join '' -> '' (map print_int32 xs) @ '' -> NULL\<newline>''))"

fun spec_stack_calls :: "stack_call list \<Rightarrow> int32 list \<Rightarrow> (int32 list \<times> stack_ret list) res" where
  "spec_stack_calls [] xs = Inr (xs, [])"
| "spec_stack_calls (c # cs) xs =
     ebind (spec_stack_call c xs) (\<lambda>(xs', r). ebind (spec_stack_calls cs xs') (\<lambda>(ys, rs). Inr (ys, r # rs)))"

text \<open>The values a sequence of calls pushes, and the total magnitude of a list of \<open>int\<close>.\<close>

fun pushed :: "stack_call list \<Rightarrow> int32 list" where
  "pushed [] = []"
| "pushed (Call_push v # cs) = v # pushed cs"
| "pushed (_ # cs) = pushed cs"

definition magnitude :: "int32 list \<Rightarrow> int" where
  "magnitude xs = sum_list (map (\<lambda>v. \<bar>sint v\<bar>) xs)"

subsection \<open>Bounded sums\<close>

lemma magnitude_simps [simp]:
  "magnitude [] = 0" "magnitude (x # xs) = \<bar>sint x\<bar> + magnitude xs" "magnitude (xs @ ys) = magnitude xs + magnitude ys"
  by (simp_all add: magnitude_def)

lemma magnitude_nonneg: "0 \<le> magnitude xs"
  by (induction xs) simp_all

lemma magnitude_butlast: "magnitude (butlast xs) \<le> magnitude xs"
proof (cases xs rule: rev_exhaust)
  case (snoc ys y)
  then show ?thesis by simp
qed simp

lemma sums_fit_magnitude: "\<bar>a\<bar> + magnitude xs < 2 ^ 31 \<Longrightarrow> sums_fit a xs"
proof (induction xs arbitrary: a)
  case (Cons x xs)
  have "\<bar>a + sint x\<bar> + magnitude xs < 2 ^ 31" using Cons.prems by simp
  with Cons.IH have "sums_fit (a + sint x) xs" by blast
  moreover have "\<bar>a + sint x\<bar> < 2 ^ 31" using Cons.prems magnitude_nonneg [of xs] by simp
  ultimately show ?case by (simp add: abs_less_iff)
qed simp

lemma average_small:
  "magnitude (stack st) < 2 ^ 31 \<Longrightarrow>
   average st = Inr (if stack st = [] then Dbl_fin 0
                     else ddiv (sum_list (map sint (stack st))) (nat_to_double (length (stack st))))"
  using sums_fit_magnitude [of 0 "stack st"] by (simp add: average_cases)

lemma stack_call_spec:
  "magnitude (stack st) < 2 ^ 31 \<Longrightarrow>
   map_sum id (\<lambda>(st', r). (stack st', r)) (stack_call_exec c st) = spec_stack_call c (stack st)"
  by (cases c)
     (auto simp: stack_push_def stack_pop_def stack_empty_def stack_top_def average_small display_def display_loop_sep_join)

lemma stack_call_magnitude:
  "stack_call_exec c st = Inr (st', r) \<Longrightarrow>
   magnitude (stack st') + magnitude (pushed cs) \<le> magnitude (stack st) + magnitude (pushed (c # cs))"
  by (cases c) (auto simp: stack_push_def stack_pop_def magnitude_butlast split: if_splits)

lemma stack_calls_spec:
  "magnitude (stack st @ pushed cs) < 2 ^ 31 \<Longrightarrow>
   map_sum id (\<lambda>(st', rs). (stack st', rs)) (stack_calls cs st) = spec_stack_calls cs (stack st)"
proof (induction cs arbitrary: st)
  case Nil
  then show ?case by simp
next
  case (Cons c cs)
  have small: "magnitude (stack st) < 2 ^ 31"
    using Cons.prems magnitude_nonneg [of "pushed (c # cs)"] by simp
  note one = stack_call_spec [OF small, of c]
  show ?case
  proof (cases "stack_call_exec c st")
    case (Inl e)
    with one have "spec_stack_call c (stack st) = Inl e" by simp
    with Inl show ?thesis by simp
  next
    case (Inr sr)
    then obtain st1 r where e: "stack_call_exec c st = Inr (st1, r)" by (cases sr) auto
    with one have a: "spec_stack_call c (stack st) = Inr (stack st1, r)" by simp
    have "magnitude (stack st1 @ pushed cs) < 2 ^ 31"
      using stack_call_magnitude [OF e, of cs] Cons.prems by simp
    with Cons.IH have ih: "map_sum id (\<lambda>(st', rs). (stack st', rs)) (stack_calls cs st1) =
        spec_stack_calls cs (stack st1)" by blast
    show ?thesis
    proof (cases "stack_calls cs st1")
      case (Inl e')
      with ih have "spec_stack_calls cs (stack st1) = Inl e'" by simp
      with e a Inl show ?thesis by simp
    next
      case (Inr tr)
      then obtain st2 rs where r2: "stack_calls cs st1 = Inr (st2, rs)" by (cases tr) auto
      with ih have "spec_stack_calls cs (stack st1) = Inr (stack st2, rs)" by simp
      with e a r2 show ?thesis by simp
    qed
  qed
qed

subsection \<open>The stack implements its contract\<close>

text \<open>
  C25. For any sequence of calls of \<open>mainStack\<close>'s members, the stack returns
  the values, writes the texts and throws the exceptions of the contract of spec
  section 4.2 (with \<open>average\<close> the floating-point quotient of the exact sum by the
  count), provided the magnitudes of the elements it holds and of the values
  pushed sum to less than \<open>2 ^ 31\<close>; the witness of C13 shows that without such a
  bound \<open>average\<close> overflows.
\<close>

theorem stack_calls_contract:
  assumes "magnitude (stack st @ pushed cs) < 2 ^ 31"
  shows "map_sum id (\<lambda>(st', rs). (stack st', rs)) (stack_calls cs st) = spec_stack_calls cs (stack st)"
  using assms by (rule stack_calls_spec)

theorem stack_calls_contract_witness:
  "magnitude (stack \<lparr>stack = []\<rparr> @
     pushed [Call_push 10, Call_push 20, Call_push 30, Call_pop, Call_top, Call_average,
             Call_pop, Call_pop, Call_pop, Call_empty, Call_display]) < 2 ^ 31 \<and>
   map_sum id (\<lambda>(st', rs). (stack st', rs))
     (stack_calls [Call_push 10, Call_push 20, Call_push 30, Call_pop, Call_top, Call_average,
                   Call_pop, Call_pop, Call_pop, Call_empty, Call_display] \<lparr>stack = []\<rparr>) =
   Inr ([], [SVoid, SVoid, SVoid, SWritten [], SInt 20, SDouble (Dbl_fin 15), SWritten [], SWritten [],
             SWritten ''Stack is empty. Cannot pop.\<newline>'', SBool True,
             SWritten ''Stack (bottom to top):  -> NULL\<newline>''])"
proof -
  let ?cs = "[Call_push 10, Call_push 20, Call_push 30, Call_pop, Call_top, Call_average,
              Call_pop, Call_pop, Call_pop, Call_empty, Call_display]"
  have m: "magnitude (stack \<lparr>stack = []\<rparr> @ pushed ?cs) < 2 ^ 31" by simp
  have e: "spec_stack_calls ?cs (stack \<lparr>stack = []\<rparr>) =
     Inr ([], [SVoid, SVoid, SVoid, SWritten [], SInt 20, SDouble (Dbl_fin 15), SWritten [], SWritten [],
               SWritten ''Stack is empty. Cannot pop.\<newline>'', SBool True,
               SWritten ''Stack (bottom to top):  -> NULL\<newline>''])"
    by (simp add: ddiv_def nat_to_double_def round_quot_def binade_def rdiv_even_def nbits.simps Let_def
        flip: numeral_2_eq_2)
  from stack_calls_contract [OF m] m show ?thesis unfolding e by (rule conjI [rotated])
qed

end
