(* ===== verification/Spec2Isabelle.thy ===== *)
theory Spec2Isabelle
  imports ListRun ListFaults ListCalls StackCalls
begin

text \<open>
  \<^bold>\<open>Verification of Data-Structures-303: a singly linked list and a vector-backed stack.\<close>

  \<^bold>\<open>The program.\<close> src/main.h declares two independent classes and src/main.cpp
  implements them and a demonstration \<open>main\<close>:
  \<^item> \<open>Linked_List\<close>: a singly linked list of \<open>int\<close> with raw owning pointers
    \<open>head\<close>, a non-owning \<open>tail\<close> and a \<open>size_t\<close> counter \<open>num_items\<close>; methods
    \<open>push_front\<close>, \<open>push_back\<close>, \<open>pop_front\<close>, \<open>pop_back\<close>, \<open>front\<close>, \<open>back\<close>,
    \<open>empty\<close>, \<open>insert\<close>, \<open>remove\<close>, \<open>find\<close>, \<open>print_list\<close>, \<open>size\<close> and the
    destructor;
  \<^item> \<open>mainStack\<close>: a stack over \<open>std::vector<int>\<close> with \<open>push\<close>, \<open>pop\<close>,
    \<open>empty\<close>, \<open>top\<close>, \<open>average\<close> and \<open>display\<close>;
  \<^item> \<open>main\<close>: a fixed sequence of calls on one list and one stack that prints
    a transcript.
  The classes do not call each other; \<open>main\<close> is their only common client.

  \<^bold>\<open>Theories.\<close>
  \<^item> \<open>Prelude\<close>: the machine types (\<open>int\<close> as \<open>32 word\<close>, \<open>size_t\<close> as \<open>64 word\<close>),
    the type \<open>cpp_error\<close> of outcomes other than a normal return (a thrown
    \<open>runtime_error\<close> with its message; null dereference, use after free,
    invalid \<open>delete\<close> and signed overflow, the undefined behaviours the code could
    reach), the result type \<open>'a res = cpp_error + 'a\<close> with its bind \<open>ebind\<close>
    (sequencing of statements), shared lemmas on words and pointers, and the
    decimal rendering of \<open>int\<close> by \<open>std::ostream\<close>.
  \<^item> \<open>Heap\<close>: \<open>struct Node\<close> as the record \<open>node\<close>, the free store as an arena
    \<open>mem\<close> of cells (\<open>new\<close> is \<open>new_node\<close>, \<open>delete\<close> is \<open>delete\<close>, \<open>*p\<close> is
    \<open>deref\<close>, \<open>p->next = q\<close> is \<open>set_next\<close>), and pointer chains: \<open>path h p as q\<close>
    (following \<open>next\<close> from \<open>p\<close> through the allocated nodes \<open>as\<close> to \<open>q\<close>), its
    executable count-bounded form \<open>walk\<close>, and the payloads \<open>vals\<close> of a chain.
    Addresses are never reused, so every access through a dangling pointer is
    an error of the model rather than an accidental read of another node.
  \<^item> \<open>LinkedList\<close>: the object state \<open>ll_state\<close> (store, \<open>head\<close>, \<open>tail\<close>,
    \<open>num_items\<close>), the constructor \<open>linked_list_init\<close>, the end operations
    \<open>push_front\<close>, \<open>push_back\<close>, \<open>pop_front\<close>, \<open>pop_back\<close>, \<open>ll_front\<close>, \<open>ll_back\<close>,
    \<open>ll_empty\<close>, \<open>ll_size\<close> and the destructor \<open>ll_destroy\<close>, each translated
    statement by statement from src/main.cpp (lines 12--97 and 165--168). The
    two pointer-chasing loops (\<open>pop_back\<close>'s search for the node before \<open>tail\<close>,
    the destructor's release loop) are \<^theory_text>\<open>partial_function (option)\<close>, so that a
    loop that would not end is the value \<open>None\<close>; their termination on
    well-formed lists is proved, not assumed.
    The invariant \<open>ll_repr s as\<close> (spec section 3: following \<open>next\<close> from
    \<open>head\<close> \<open>num_items\<close> times visits the nodes \<open>as\<close> and reaches null, \<open>tail\<close>
    is the last of them, and they are exactly the allocated nodes, so there is no
    cycle, no sharing and no leak), its executable form \<open>ll_inv\<close>, and the
    abstraction \<open>ll_list\<close> to the sequence of payloads. The claims show that each
    operation keeps the invariant, never faults, and acts on \<open>ll_list\<close> as the
    corresponding list function (\<open>Cons\<close>, \<open>@ [v]\<close>, \<open>tl\<close>, \<open>butlast\<close>, \<open>hd\<close>,
    \<open>last\<close>), and that the destructor frees every node (claims C1--C6).
  \<^item> \<open>SeqSpec\<close>: the abstract contract of the list as functions on HOL lists:
    \<open>seq_insert\<close> (clamped insertion), \<open>seq_remove\<close> (removal by index, identity out
    of range), \<open>seq_find\<close> (first occurrence, else the length) and \<open>seq_print\<close>.
  \<^item> \<open>ListIndex\<close>: \<open>ll_insert\<close>, \<open>ll_remove\<close>, \<open>ll_find\<close> and \<open>print_list\<close>
    (src/main.cpp lines 100--163). The counted \<open>for\<close> loop that walks to the
    node before an index is \<open>advance\<close> (recursion on the \<open>index - 1\<close>
    iterations); the \<open>while\<close> loops of \<open>find\<close> and \<open>print_list\<close> are
    \<^theory_text>\<open>partial_function (option)\<close>. Claims C7--C11: refinement of the
    \<open>SeqSpec\<close> functions, termination and absence of faults, and the
    \<open>push_back\<close>/\<open>find\<close> round trip, which holds only for a value not already
    present.
  \<^item> \<open>Stack\<close>: \<open>mainStack\<close> as a record of its vector (a list, top last) and its
    six methods (src/main.cpp lines 176--220). \<open>pop\<close> returns the diagnostic
    it prints on an empty stack; \<open>top\<close> throws. \<open>average\<close> sums with
    \<open>std::accumulate\<close> in \<open>int\<close>, modelled from the C++ standard with signed
    overflow as the error \<open>Signed_overflow\<close>, then converts the sum and the count
    to \<open>double\<close> and divides them in IEEE arithmetic (\<open>DoubleDiv\<close>). Claims
    C12--C14: last in first out; the behaviour of \<open>average\<close> on every branch
    (\<open>0.0\<close> on an empty stack, \<open>Signed_overflow\<close> exactly when a running sum
    leaves \<open>int\<close>, otherwise a finite \<open>double\<close> within relative error
    \<open>2 ^ -53\<close> of the mean), and the equivalence of \<open>display\<close>'s index loop
    with a reference rendering.
  \<^item> \<open>DoubleDiv\<close>: the C++ \<open>double\<close> division \<open>sum / size\<close> of \<open>average\<close>
    (an \<open>int\<close> dividend, a \<open>size_t\<close> divisor converted to \<open>double\<close>) in
    IEEE 754 binary64 with round to nearest, ties to even: \<open>dbl\<close> is a
    finite value, NaN or a signed infinity; \<open>nat_to_double\<close> rounds the
    divisor to 53 significant bits; \<open>ddiv\<close> gives NaN for \<open>0 / 0\<close>, an
    infinity for a nonzero value over zero, and otherwise the quotient rounded
    by \<open>round_quot\<close> (integer division with remainder on a scaled numerator,
    the binade found from the bit lengths \<open>nbits\<close>). Lemmas: the rounding
    error is at most half a unit in the last place, hence a relative error of at
    most \<open>2 ^ -53\<close>, and counts below \<open>2 ^ 53\<close> convert exactly.
  \<^item> \<open>ListRun\<close>: the mutators as one datatype \<open>ll_op\<close> with the step function
    \<open>ll_exec\<close>, runs \<open>ll_run\<close> of operation lists and their abstract counterpart
    \<open>seq_run\<close>, and \<open>ll_lifetime\<close>, the life of a local list (constructor, a
    run, destructor at the end of the scope). Claims C18--C19: any run refines
    the abstract run step by step, and no run leaks a node.
  \<^item> \<open>ListFaults\<close>: the loops on corrupted states outside the invariant.
    \<open>chain_end\<close> says that following \<open>next\<close> from a pointer stops at null or at a
    freed node. Claims C21--C23: \<open>print_list\<close> terminates exactly when the
    chain from \<open>head\<close> ends so (proved in both directions, the "only if" by the
    fixpoint induction \<open>print_from.raw_induct\<close>); on a cyclic chain \<open>find\<close> of
    an absent value and \<open>print_list\<close> never return; and the destructor on a
    chain of distinct nodes frees them all when the chain ends at null and
    reads a freed node when it returns into itself or ends at a freed node,
    which fixes the order of its two statements (read \<open>next\<close>, then
    \<open>delete\<close>). Claim C26: a counter that overstates the chain
    makes \<open>insert\<close> and \<open>remove\<close> past the end of the chain dereference null.
  \<^item> \<open>ListCalls\<close>: the public interface of \<open>Linked_List\<close> (src/main.h) as the
    datatype \<open>ll_call\<close> of its twelve members with the return values \<open>ll_ret\<close>,
    one call \<open>ll_call_exec\<close>, call sequences \<open>ll_calls\<close>, and the contract
    \<open>seq_call\<close>/\<open>seq_calls\<close> of spec section 4.1 on HOL lists, exceptions
    included. Claim C24: trace refinement of the whole interface.
  \<^item> \<open>StackCalls\<close>: the same for \<open>mainStack\<close>: \<open>stack_call\<close>, \<open>stack_calls\<close> and
    the contract \<open>spec_stack_call\<close> of spec section 4.2 (soft diagnostic of
    \<open>pop\<close>, hard failure of \<open>top\<close>, \<open>average\<close> as the IEEE quotient of the
    exact sum by the count). Claim C25: the stack meets the contract whenever the
    magnitudes of the values it holds and pushes sum below \<open>2 ^ 31\<close>
    (\<open>magnitude\<close>); the witness of C13 shows a bound is needed.
  \<^item> This theory: the inductive set \<open>ll_reachable\<close> of states reachable from
    the constructor by \<open>ll_exec\<close> steps, and \<open>main\<close> as \<open>main_list\<close>,
    \<open>main_stack\<close> and \<open>main_program\<close>. \<open>main_list\<close> runs the list's destructor
    before the stack part rather than at the end of \<open>main\<close>; the two objects
    share nothing and the destructor writes no output, so the transcript is
    the same. Claims C15--C17 and C20: the invariant
    holds in every reachable state (rule induction), every operation from a
    reachable state terminates without fault, every reachable list can be
    emptied by popping \<open>size()\<close> times from either end, freeing every node
    (liveness), and \<open>main\<close> writes exactly its transcript.

  \<^bold>\<open>Bounds and loops.\<close> \<open>num_items\<close> is a 64-bit counter that C++ increments
  without a check; the push and insert theorems, the steps of \<open>ll_reachable\<close>
  and the run theorems assume the length (plus the number of operations still
  to run) is below \<open>2 ^ 64\<close>. A node takes at least 16 bytes, so no 64-bit
  address space holds \<open>2 ^ 64 - 1\<close> of them: the hypothesis excludes no real
  execution. No fuel is used: each pointer-chasing loop is a
  \<^theory_text>\<open>partial_function (option)\<close>, its termination on a well-formed list is a
  theorem (by induction on the chain the invariant provides), and on
  corrupted states both termination and non-termination are theorems (C21,
  C22). The stack's contract holds under a bound on magnitudes, the simplest
  one that keeps every running sum of \<open>std::accumulate\<close> in \<open>int\<close>. The
  error bound of \<open>average\<close> assumes fewer than \<open>2 ^ 53\<close> elements, so that
  the count converts to \<open>double\<close> exactly; a vector of \<open>2 ^ 53\<close> 4-byte
  elements needs 32 PiB, so no real execution is excluded. The exponent range of
  \<open>double\<close> is not modelled: a quotient of an \<open>int\<close> by a count lies between
  \<open>2 ^ -64\<close> and \<open>2 ^ 31\<close> in magnitude, far from overflow and underflow.

  \<^bold>\<open>Not modelled.\<close> \<open>new\<close> throwing \<open>std::bad_alloc\<close> (memory is unbounded);
  the capacity growth of \<open>std::vector\<close> (only its contents are observable);
  the formatting of \<open>double\<close> by \<open>std::ostream\<close> (the transcript holds the
  \<open>double\<close> value itself); text written before an
  exception ends \<open>main\<close> (no statement of \<open>main\<close> throws); the build files.
\<close>

section \<open>Reachable states of the list\<close>

text \<open>
  The states a list can reach from its constructor by steps \<open>ll_exec\<close> of
  theory \<open>ListRun\<close>. A step is taken only while the counter has room, which
  every real execution satisfies (see the bounds above).
\<close>

inductive ll_reachable :: "ll_state \<Rightarrow> bool" where
  init: "ll_reachable linked_list_init"
| step: "ll_reachable s \<Longrightarrow> Suc (unat (num_items s)) < 2 ^ 64 \<Longrightarrow>
         ll_exec op s = Some (Inr s') \<Longrightarrow> ll_reachable s'"


section \<open>The demonstration driver\<close>

text \<open>
  \<open>main()\<close> (src/main.cpp lines 227--301) writes a transcript to \<open>std::cout\<close>.
  The transcript is a list of output items: text, and the one \<open>double\<close> the
  program writes (the average), kept as its value because the formatting of a
  \<open>double\<close> by \<open>std::ostream\<close> is not modelled. A thrown exception or undefined
  behaviour ends the program (\<open>Inl\<close>); a loop that does not end is \<open>None\<close>.
  \<open>rbind\<close> sequences the statements of \<open>main\<close> through both outcomes. The list
  \<open>list\<close> is destroyed at the end of its scope, which \<open>main_list\<close> includes.
\<close>

datatype out_item = Str string | Dbl dbl

definition main_list :: "string res option" where
  "main_list =
     rbind (Some (push_front 10 linked_list_init)) (\<lambda>l1.
     rbind (print_list l1) (\<lambda>p1.
     rbind (Some (push_back 20 l1)) (\<lambda>l2.
     rbind (Some (push_back 30 l2)) (\<lambda>l3.
     rbind (print_list l3) (\<lambda>p3.
     rbind (Some (ll_front l3)) (\<lambda>f.
     rbind (Some (ll_back l3)) (\<lambda>b.
     rbind (Some (ll_insert 1 99 l3)) (\<lambda>l4.
     rbind (print_list l4) (\<lambda>p4.
     rbind (Some (ll_remove 1 l4)) (\<lambda>(removed, l5).
     rbind (print_list l5) (\<lambda>p5.
     rbind (ll_find 20 l5) (\<lambda>index.
     rbind (Some (pop_front l5)) (\<lambda>l6.
     rbind (print_list l6) (\<lambda>p6.
     rbind (pop_back l6) (\<lambda>l7.
     rbind (print_list l7) (\<lambda>p7.
     rbind (ll_destroy l7) (\<lambda>_.
       Some (Inr (''After push_front(10): '' @ p1 @
                  ''After push_back(20) and push_back(30): '' @ p3 @
                  ''Front: '' @ print_int32 f @ ''\<newline>'' @
                  ''Back: '' @ print_int32 b @ ''\<newline>'' @
                  ''Is list empty? '' @ (if ll_empty l3 then ''Yes'' else ''No'') @ ''\<newline>'' @
                  ''After insert(1, 99): '' @ p4 @
                  ''Remove at index 1: '' @ (if removed then ''True'' else ''False'') @ ''\<newline>'' @ p5 @
                  ''Index of 20: '' @ nat_dec (unat index) @ ''\<newline>'' @
                  ''After pop_front(): '' @ p6 @
                  ''After pop_back(): '' @ p7)))))))))))))))))))"

definition main_stack :: "out_item list res" where
  "main_stack =
     (let s = \<lparr>stack = []\<rparr>;
          empty_answer = (if stack_empty s then ''Yes'' else ''No'');
          s3 = stack_push 30 (stack_push 20 (stack_push 10 s));
          (s4, pop_out) = stack_pop s3
      in ebind (stack_top s4) (\<lambda>t.
         ebind (average s4) (\<lambda>avg.
           Inr [Str (''\<newline>Vector-Based Stack\<newline>\<newline>'' @
                     ''1) Stack object created.\<newline>'' @
                     ''2) Is stack empty? '' @ empty_answer @ ''\<newline>'' @
                     ''3) After pushing 10, 20, 30:\<newline>'' @ display s3 @ pop_out @
                     ''4) After one pop:\<newline>'' @ display s4 @
                     ''5) Top of the stack: '' @ print_int32 t @ ''\<newline>'' @
                     ''6) Average of stack elements: ''),
                Dbl avg, Str ''\<newline>''])))"

definition main_program :: "out_item list res option" where
  "main_program = rbind main_list (\<lambda>text. Some (ebind main_stack (\<lambda>rest. Inr (Str text # rest))))"

section \<open>Properties across the operations\<close>

lemma ll_reachable_repr: "ll_reachable s \<Longrightarrow> \<exists>as. ll_repr s as"
proof (induction rule: ll_reachable.induct)
  case init
  show ?case using ll_repr_init by blast
next
  case (step s op s')
  then obtain as where r: "ll_repr s as" by blast
  with step.hyps(2) have b: "Suc (length as) < 2 ^ 64" by (simp add: ll_repr_def)
  from ll_exec_refines_repr [OF r b, of op] obtain s'' bs where "ll_exec op s = Some (Inr s'')"
    and "ll_repr s'' bs" by blast
  with step.hyps(3) show ?case by auto
qed

lemma reach_10_20: "ll_reachable list_10_20"
proof -
  have e1: "ll_exec (PushBack 10) linked_list_init =
        Some (Inr \<lparr>mem = [Some \<lparr>data = 10, next_ptr = None\<rparr>], head = Some 0, tail = Some 0, num_items = 1\<rparr>)"
    by (simp add: linked_list_init_def push_back_def new_node_def)
  have r1: "ll_reachable \<lparr>mem = [Some \<lparr>data = 10, next_ptr = None\<rparr>], head = Some 0, tail = Some 0, num_items = 1\<rparr>"
    using ll_reachable.step [OF ll_reachable.init _ e1] by (simp add: linked_list_init_def)
  have e2: "ll_exec (PushBack 20) \<lparr>mem = [Some \<lparr>data = 10, next_ptr = None\<rparr>], head = Some 0, tail = Some 0, num_items = 1\<rparr>
        = Some (Inr list_10_20)"
    by (simp add: push_back_def new_node_def set_next_def cell_def)
  show ?thesis using ll_reachable.step [OF r1 _ e2] by simp
qed


text \<open>
  C15. Every state a list reaches from its constructor by any sequence of its
  operations satisfies the representation invariant: a null-terminated,
  acyclic chain from \<open>head\<close> of exactly \<open>num_items\<close> nodes ending at \<open>tail\<close>,
  which are exactly the allocated nodes.
\<close>

theorem reachable_inv: "ll_reachable s \<Longrightarrow> ll_inv s"
  by (simp add: ll_inv_iff_repr ll_reachable_repr)

theorem reachable_inv_witness: "ll_reachable list_10_20 \<and> ll_inv list_10_20"
  using reachable_inv [OF reach_10_20] reach_10_20 by simp

text \<open>
  C16. From every reachable state, every operation of the list terminates
  without a thrown exception or undefined behaviour, and leads to a reachable
  state again (while the counter has room).
\<close>

theorem reachable_progress:
  assumes "ll_reachable s" and "Suc (unat (num_items s)) < 2 ^ 64"
  shows "\<exists>s'. ll_exec op s = Some (Inr s') \<and> ll_reachable s'"
proof -
  from assms(1) obtain as where r: "ll_repr s as" by (blast dest: ll_reachable_repr)
  with assms(2) have "Suc (length as) < 2 ^ 64" by (simp add: ll_repr_def)
  with ll_exec_refines_repr [OF r] obtain s' where "ll_exec op s = Some (Inr s')" by blast
  with assms show ?thesis by (blast intro: ll_reachable.step)
qed

theorem reachable_progress_witness:
  "ll_reachable list_10_20 \<and> Suc (unat (num_items list_10_20)) < 2 ^ 64 \<and>
   (\<exists>s'. ll_exec PopBack list_10_20 = Some (Inr s') \<and> ll_reachable s')"
  using reachable_progress [OF reach_10_20, of PopBack] reach_10_20 by simp

text \<open>
  C20. Every reachable list can be emptied: popping \<open>size()\<close> times from the
  front, or \<open>size()\<close> times from the back, terminates without fault and ends
  with an empty list whose store holds no node (each \<open>pop\<close> frees the node it
  removes, so emptying by pops leaks nothing).
\<close>

theorem reachable_drain:
  assumes "ll_reachable s"
  shows "(\<exists>s'. ll_run (replicate (unat (ll_size s)) PopFront) s = Some (Inr s') \<and>
              ll_empty s' \<and> dom (cell (mem s')) = {}) \<and>
         (\<exists>s'. ll_run (replicate (unat (ll_size s)) PopBack) s = Some (Inr s') \<and>
              ll_empty s' \<and> dom (cell (mem s')) = {})"
proof -
  from assms obtain as where r: "ll_repr s as" by (blast dest: ll_reachable_repr)
  then have n: "unat (ll_size s) = length as" by (simp add: ll_repr_def ll_size_def)
  from ll_run_pop_front [OF r, of "length as"] ll_run_pop_back [OF r, of "length as"] n
  show ?thesis by (auto dest: ll_repr_Nil_empty)
qed

theorem reachable_drain_witness:
  "ll_reachable list_10_20 \<and>
   (\<exists>s'. ll_run [PopFront, PopFront] list_10_20 = Some (Inr s') \<and> ll_empty s' \<and> dom (cell (mem s')) = {}) \<and>
   (\<exists>s'. ll_run [PopBack, PopBack] list_10_20 = Some (Inr s') \<and> ll_empty s' \<and> dom (cell (mem s')) = {})"
proof -
  have u: "unat (ll_size list_10_20) = 2" by (simp add: ll_size_def)
  have "replicate 2 op = [op, op]" for op :: ll_op by (simp add: numeral_2_eq_2)
  with u have "replicate (unat (ll_size list_10_20)) op = [op, op]" for op :: ll_op by simp
  then show ?thesis using reachable_drain [OF reach_10_20] reach_10_20 by simp
qed

text \<open>
  C17. The program runs to completion without exception or undefined
  behaviour and writes exactly this transcript; it contains the examples of
  spec section 8 (\<open>insert(1, 99)\<close> gives 10, 99, 20, 30; \<open>remove(1)\<close> returns
  true and gives 10, 20, 30; \<open>find(20)\<close> is 1; after three pushes and a pop the
  top is 20 and the average 15).
\<close>

theorem main_transcript:
  "main_program = Some (Inr
     [Str (''After push_front(10): 10 -> NULL\<newline>'' @
           ''After push_back(20) and push_back(30): 10 -> 20 -> 30 -> NULL\<newline>'' @
           ''Front: 10\<newline>Back: 30\<newline>Is list empty? No\<newline>'' @
           ''After insert(1, 99): 10 -> 99 -> 20 -> 30 -> NULL\<newline>'' @
           ''Remove at index 1: True\<newline>10 -> 20 -> 30 -> NULL\<newline>'' @
           ''Index of 20: 1\<newline>'' @
           ''After pop_front(): 20 -> 30 -> NULL\<newline>'' @
           ''After pop_back(): 20 -> NULL\<newline>''),
      Str (''\<newline>Vector-Based Stack\<newline>\<newline>1) Stack object created.\<newline>'' @
           ''2) Is stack empty? Yes\<newline>'' @
           ''3) After pushing 10, 20, 30:\<newline>Stack (bottom to top): 10 -> 20 -> 30 -> NULL\<newline>'' @
           ''4) After one pop:\<newline>Stack (bottom to top): 10 -> 20 -> NULL\<newline>'' @
           ''5) Top of the stack: 20\<newline>6) Average of stack elements: ''),
      Dbl (Dbl_fin 15), Str ''\<newline>''])"
proof -
  have l: "main_list = Some (Inr (''After push_front(10): 10 -> NULL\<newline>'' @
           ''After push_back(20) and push_back(30): 10 -> 20 -> 30 -> NULL\<newline>'' @
           ''Front: 10\<newline>Back: 30\<newline>Is list empty? No\<newline>'' @
           ''After insert(1, 99): 10 -> 99 -> 20 -> 30 -> NULL\<newline>'' @
           ''Remove at index 1: True\<newline>10 -> 20 -> 30 -> NULL\<newline>'' @
           ''Index of 20: 1\<newline>'' @
           ''After pop_front(): 20 -> 30 -> NULL\<newline>'' @
           ''After pop_back(): 20 -> NULL\<newline>''))"
    by (simp add: main_list_def linked_list_init_def push_front_def push_back_def new_node_def
        set_next_def deref_def delete_def cell_def print_list_def print_from.simps ll_front_def
        ll_back_def ll_insert_def ll_remove_def ll_find_def find_from.simps pop_front_def
        pop_back_def find_before_tail.simps ll_destroy_def destroy_chain.simps ll_empty_def
        print_int32_def int_dec_def nat_dec.simps digit_char_def Let_def word_le_unat)
  have s: "main_stack = Inr
     [Str (''\<newline>Vector-Based Stack\<newline>\<newline>1) Stack object created.\<newline>'' @
           ''2) Is stack empty? Yes\<newline>'' @
           ''3) After pushing 10, 20, 30:\<newline>Stack (bottom to top): 10 -> 20 -> 30 -> NULL\<newline>'' @
           ''4) After one pop:\<newline>Stack (bottom to top): 10 -> 20 -> NULL\<newline>'' @
           ''5) Top of the stack: 20\<newline>6) Average of stack elements: ''),
      Dbl (Dbl_fin 15), Str ''\<newline>'']"
    by (simp add: main_stack_def stack_empty_def stack_push_def stack_pop_def stack_top_def
        average_def display_def display_loop.simps print_int32_def int_dec_def nat_dec.simps
        digit_char_def ddiv_def nat_to_double_def round_quot_def binade_def rdiv_even_def nbits.simps
        Let_def flip: numeral_2_eq_2)
  show ?thesis by (simp add: main_program_def l s)
qed

end
